theory Spec2Isabelle
  imports Main
begin

section \<open>The relay manager of src/utils/nostr/nostr-manager.ts\<close>

text \<open>
  The class \<^verbatim>\<open>NostrManager\<close> keeps an array \<^verbatim>\<open>relays\<close> of session objects, a map
  \<^verbatim>\<open>authenticatedRelays\<close>, its parameters and the handle of the pending sweep timer. Its
  methods mutate the session objects in place and call into the relay pool of nostr-tools,
  the session closures \<^verbatim>\<open>connect\<close>/\<^verbatim>\<open>disconnect\<close>, two helper functions and the console.

  The embedding passes the manager state explicitly. The array \<^verbatim>\<open>this.relays\<close> is the
  store of the session objects: it only grows by \<^verbatim>\<open>push\<close> (the shutdown method
  \<^verbatim>\<open>close()\<close> of the manager, which empties it, is not part of this development), so
  the position of a session in the array is its address, and an array of session objects
  such as the local \<^verbatim>\<open>relays\<close> of \<^verbatim>\<open>subscribe\<close> is a list of positions. Every call
  that leaves the manager is appended to the trace \<open>calls\<close>. What the outside world answers
  (clock readings, whether a disconnect fails, how a handshake ends, whether a signature
  verifies) is a parameter of the operation that asks.
\<close>

subsection \<open>Data\<close>

text \<open>
  \<^verbatim>\<open>NostrRelay\<close>. The closures \<^verbatim>\<open>connect\<close> and \<^verbatim>\<open>disconnect\<close> are determined by the
  url; calling them is recorded in the trace. \<^verbatim>\<open>activeSubs\<close> holds subscription handles,
  compared by object identity in the source (\<^verbatim>\<open>indexOf\<close>); a handle is identified here
  by the number it received when it was created. \<^verbatim>\<open>authenticated\<close> is optional in the
  type, but \<^verbatim>\<open>addRelay\<close>, the only place that creates a session, sets it.
  Times are milliseconds, as \<^verbatim>\<open>Date.now()\<close> returns them.
\<close>

record NostrRelay =
  url :: string
  activeSubs :: "nat list"
  sleeping :: bool
  lastActive :: int
  authenticated :: bool

text \<open>
  \<^verbatim>\<open>NostrManagerParams\<close>; an optional field is an \<open>option\<close>. The stored copy
  \<^verbatim>\<open>this.params\<close> has the same type.
\<close>

record NostrManagerParams =
  connectionTimeout :: "int option"
  keepAliveTime :: int
  gcInterval :: int
  readable :: "bool option"
  writable :: "bool option"
  autoAuth :: "bool option"

text \<open>
  The event type of nostr-tools, with the fields the protocol gives it. Filters and
  signers are opaque to the manager, which only passes them on.
\<close>

record NostrEvent =
  event_id :: string
  pubkey :: string
  created_at :: int
  kind :: int
  tags :: "string list list"
  content :: string
  sig :: string

type_synonym NostrFilter = string
type_synonym NostrSigner = string

text \<open>
  The console messages of the source, by the statement that prints them: the caught
  error of a failed disconnect; the three messages of \<^verbatim>\<open>authenticateToRelay\<close> with the
  url; the warning of \<^verbatim>\<open>publish\<close> with the url; the two messages of
  \<^verbatim>\<open>authenticateToRelays\<close> with the counts they print.
\<close>

datatype level = LogInfo | LogWarn | LogError

datatype message =
    CaughtError
  | AuthSuccessful string
  | AuthFailed string
  | AuthError string
  | PublishingWithoutAuth string
  | AuthAttempting nat
  | AuthComplete nat nat

text \<open>
  The calls that leave the manager, in the order they are made: \<^verbatim>\<open>pool.ensureRelay\<close>,
  the session closures \<^verbatim>\<open>connect()\<close> and \<^verbatim>\<open>disconnect()\<close>, \<^verbatim>\<open>pool.subscribeMany\<close>
  (with the number of the handle that receives the result), \<^verbatim>\<open>sub._sub.close()\<close>, the two
  helpers of nostr-helper-functions, \<^verbatim>\<open>pool.publish\<close> and the console.
\<close>

datatype effect =
    EnsureRelay string "int option"
  | RelayConnect string
  | RelayDisconnect string
  | SubscribeMany "string list" "NostrFilter list" nat
  | SubCloserClose nat
  | HelperAuthenticate NostrSigner string
  | HelperAuthenticateMany NostrSigner "string list"
  | PoolPublish "string list" NostrEvent
  | Console level message

text \<open>
  The manager. \<open>gcTimeout\<close> is the pending timer of the sweep, represented by the delay
  it was armed with. \<open>nextSub\<close> numbers the subscription handles (each
  \<^verbatim>\<open>subscribe\<close> creates a new object); it has no counterpart in the source.
\<close>

record manager =
  params :: NostrManagerParams
  relays :: "NostrRelay list"
  gcTimeout :: "int option"
  authenticatedRelays :: "string \<rightharpoonup> bool"
  nextSub :: nat
  calls :: "effect list"

text \<open>
  What a call can throw: an \<^verbatim>\<open>Error\<close> of the manager with its message, the timeout of
  \<^verbatim>\<open>fetch\<close>, or whatever an outside call threw, named by the call.
\<close>

datatype error = Error string | TimeoutError | Thrown effect

text \<open>\<^verbatim>\<open>!x\<close> for an optional boolean: \<^verbatim>\<open>undefined\<close> and \<^verbatim>\<open>false\<close> are falsy.\<close>

definition falsy :: "bool option \<Rightarrow> bool" where
  "falsy b = (b \<noteq> Some True)"

text \<open>Mutating the session object at position \<open>i\<close> of \<^verbatim>\<open>this.relays\<close>.\<close>

definition modify_relay :: "nat \<Rightarrow> (NostrRelay \<Rightarrow> NostrRelay) \<Rightarrow> manager \<Rightarrow> manager" where
  "modify_relay i f m = m\<lparr>relays := (relays m)[i := f (relays m ! i)]\<rparr>"

definition emit :: "effect list \<Rightarrow> manager \<Rightarrow> manager" where
  "emit es m = m\<lparr>calls := calls m @ es\<rparr>"

subsection \<open>addRelay, keepAlive, the sweep and the constructor\<close>

text \<open>
  \<^verbatim>\<open>addRelay(relayUrl, params?)\<close>: returns at once when a session with this url exists;
  otherwise asks the pool for the relay and pushes a new session. \<open>now\<close> is the reading
  of \<^verbatim>\<open>Date.now()\<close>, \<open>ct\<close> the optional \<^verbatim>\<open>connectionTimeout\<close>.
\<close>

definition addRelay :: "int \<Rightarrow> string \<Rightarrow> int option \<Rightarrow> manager \<Rightarrow> manager" where
  "addRelay now relayUrl ct m =
     (if find (\<lambda>r. url r = relayUrl) (relays m) \<noteq> None then m
      else m\<lparr>relays := relays m @
                 [\<lparr>url = relayUrl, activeSubs = [], sleeping = True,
                   lastActive = now, authenticated = False\<rparr>],
              calls := calls m @ [EnsureRelay relayUrl ct]\<rparr>)"

primrec addRelays :: "int \<Rightarrow> string list \<Rightarrow> int option \<Rightarrow> manager \<Rightarrow> manager" where
  "addRelays now [] ct m = m"
| "addRelays now (relayUrl # relayUrls) ct m = addRelays now relayUrls ct (addRelay now relayUrl ct m)"

text \<open>
  \<^verbatim>\<open>keepAlive(relays)\<close> over an array of sessions given by their positions. The call
  \<^verbatim>\<open>relay.connect()\<close> is not awaited and an async function does not throw to its caller,
  so the \<^verbatim>\<open>catch\<close> branch is never taken and \<^verbatim>\<open>sleeping\<close> is always cleared.
\<close>

definition keepAlive_step :: "int \<Rightarrow> nat \<Rightarrow> manager \<Rightarrow> manager" where
  "keepAlive_step now i m =
     (let m1 = (if sleeping (relays m ! i)
                then modify_relay i (\<lambda>r. r\<lparr>sleeping := False\<rparr>)
                       (emit [RelayConnect (url (relays m ! i))] m)
                else m)
      in modify_relay i (\<lambda>r. r\<lparr>lastActive := now\<rparr>) m1)"

primrec keepAlive :: "int \<Rightarrow> nat list \<Rightarrow> manager \<Rightarrow> manager" where
  "keepAlive now [] m = m"
| "keepAlive now (i # is) m = keepAlive now is (keepAlive_step now i m)"

text \<open>
  The condition of the sweep for one session, \<open>now\<close> being the reading of
  \<^verbatim>\<open>Date.now()\<close> taken for it.
\<close>

definition gc_due :: "NostrManagerParams \<Rightarrow> int \<Rightarrow> NostrRelay \<Rightarrow> bool" where
  "gc_due p now r =
     (\<not> sleeping r \<and> length (activeSubs r) = 0 \<and> now - lastActive r > keepAliveTime p)"

text \<open>
  One iteration of the loop of \<^verbatim>\<open>gc()\<close>, for the session at position \<open>i\<close>. When the
  test holds, \<^verbatim>\<open>relay.disconnect()\<close> is called and the sweep is suspended at the
  \<^verbatim>\<open>await\<close>. \<open>during i\<close> is what the other calls of the manager that run in the
  meantime make of it. When the sweep resumes, a rejected disconnect is logged by the
  \<^verbatim>\<open>catch\<close> (\<open>disconnectOk u\<close> tells whether the disconnect of the session with url
  \<open>u\<close> resolves), and in both cases \<^verbatim>\<open>relay.sleeping = true\<close> is assigned to the
  session the test was made on, without a second look at it.
\<close>

definition gc_suspend :: "nat \<Rightarrow> manager \<Rightarrow> manager" where
  "gc_suspend i m = emit [RelayDisconnect (url (relays m ! i))] m"

definition gc_resume :: "bool \<Rightarrow> nat \<Rightarrow> manager \<Rightarrow> manager" where
  "gc_resume ok i m =
     modify_relay i (\<lambda>r. r\<lparr>sleeping := True\<rparr>)
       (emit (if ok then [] else [Console LogError CaughtError]) m)"

definition gc_step ::
  "(nat \<Rightarrow> int) \<Rightarrow> (string \<Rightarrow> bool) \<Rightarrow> (nat \<Rightarrow> manager \<Rightarrow> manager) \<Rightarrow> nat \<Rightarrow> manager \<Rightarrow> manager" where
  "gc_step now disconnectOk during i m =
     (let relay = relays m ! i in
      if gc_due (params m) (now i) relay
      then gc_resume (disconnectOk (url relay)) i (during i (gc_suspend i m))
      else m)"

text \<open>
  The loop \<^verbatim>\<open>for (const relay of this.relays)\<close> from position \<open>i\<close> on. The array is
  read anew at every iteration, so sessions pushed while the sweep was suspended are visited
  too; a sweep that is handed new sessions to put to sleep for ever does not return, which
  is the value \<open>None\<close>.
\<close>

partial_function (option) gc_from ::
  "(nat \<Rightarrow> int) \<Rightarrow> (string \<Rightarrow> bool) \<Rightarrow> (nat \<Rightarrow> manager \<Rightarrow> manager) \<Rightarrow> nat \<Rightarrow> manager \<Rightarrow> manager option" where
  "gc_from now disconnectOk during i m =
     (if i < length (relays m)
      then gc_from now disconnectOk during (Suc i) (gc_step now disconnectOk during i m)
      else Some m)"

text \<open>
  \<^verbatim>\<open>gc()\<close>: the loop, then \<^verbatim>\<open>setTimeout\<close> with the delay the source passes. \<open>now i\<close>
  is the clock reading taken for the session at position \<open>i\<close>.
\<close>

definition gc ::
  "(nat \<Rightarrow> int) \<Rightarrow> (string \<Rightarrow> bool) \<Rightarrow> (nat \<Rightarrow> manager \<Rightarrow> manager) \<Rightarrow> manager \<Rightarrow> manager option" where
  "gc now disconnectOk during m =
     (case gc_from now disconnectOk during 0 m of
        None \<Rightarrow> None
      | Some m1 \<Rightarrow> Some (m1\<lparr>gcTimeout := Some (keepAliveTime (params m1))\<rparr>))"

text \<open>
  A sweep during which no other call of the manager runs: \<open>idle\<close> for \<open>during\<close>. Such
  a sweep returns, and what it returns is \<open>gc_alone\<close>, the iterations over the positions
  the registry has at the start (lemma \<open>gc_idle\<close> below). \<open>gc_calls\<close> is what such an
  iteration adds to the trace for a session it puts to sleep. These three serve the
  statements about undisturbed sweeps only.
\<close>

definition idle :: "nat \<Rightarrow> manager \<Rightarrow> manager" where
  "idle i m = m"

definition gc_calls :: "(string \<Rightarrow> bool) \<Rightarrow> NostrRelay \<Rightarrow> effect list" where
  "gc_calls disconnectOk relay =
     RelayDisconnect (url relay) #
     (if disconnectOk (url relay) then [] else [Console LogError CaughtError])"

primrec gc_loop :: "(nat \<Rightarrow> int) \<Rightarrow> (string \<Rightarrow> bool) \<Rightarrow> nat list \<Rightarrow> manager \<Rightarrow> manager" where
  "gc_loop now disconnectOk [] m = m"
| "gc_loop now disconnectOk (i # is) m =
     gc_loop now disconnectOk is (gc_step now disconnectOk idle i m)"

definition gc_alone :: "(nat \<Rightarrow> int) \<Rightarrow> (string \<Rightarrow> bool) \<Rightarrow> manager \<Rightarrow> manager" where
  "gc_alone now disconnectOk m =
     (let m1 = gc_loop now disconnectOk [0..<length (relays m)] m
      in m1\<lparr>gcTimeout := Some (keepAliveTime (params m1))\<rparr>)"

text \<open>
  The constructor: the defaults of the destructuring (five minutes for both times), a
  session for every given url, and the first sweep. That sweep finds every session asleep,
  so it reaches no \<^verbatim>\<open>await\<close> and has returned when the constructor returns (lemma
  \<open>NostrManager_new_eq\<close> below); the branch for a sweep that does not return is never
  taken.
\<close>

definition default_params :: "NostrManagerParams option \<Rightarrow> NostrManagerParams" where
  "default_params ps =
     (case ps of
        None \<Rightarrow> \<lparr>connectionTimeout = None, keepAliveTime = 1000 * 60 * 5,
                 gcInterval = 1000 * 60 * 5, readable = Some True, writable = Some True,
                 autoAuth = Some False\<rparr>
      | Some p \<Rightarrow> \<lparr>connectionTimeout = connectionTimeout p, keepAliveTime = keepAliveTime p,
                   gcInterval = gcInterval p,
                   readable = Some (case readable p of None \<Rightarrow> True | Some b \<Rightarrow> b),
                   writable = Some (case writable p of None \<Rightarrow> True | Some b \<Rightarrow> b),
                   autoAuth = Some (case autoAuth p of None \<Rightarrow> False | Some b \<Rightarrow> b)\<rparr>)"

definition NostrManager_new ::
  "int \<Rightarrow> (string \<Rightarrow> bool) \<Rightarrow> string list \<Rightarrow> NostrManagerParams option \<Rightarrow> manager" where
  "NostrManager_new now disconnectOk relayUrls ps =
     (let p = default_params ps;
          m0 = \<lparr>params = p, relays = [], gcTimeout = None,
                authenticatedRelays = Map.empty, nextSub = 0, calls = []\<rparr>;
          m1 = addRelays now relayUrls (connectionTimeout p) m0
      in case gc (\<lambda>i. now) disconnectOk idle m1 of Some m2 \<Rightarrow> m2 | None \<Rightarrow> m1)"

subsection \<open>subscribe and the handle it returns\<close>

text \<open>
  The local array \<^verbatim>\<open>relays\<close> of \<^verbatim>\<open>subscribe\<close> and \<^verbatim>\<open>publish\<close>:
  \<^verbatim>\<open>relayUrls ? this.relays.filter((r) => relayUrls.includes(r.url)) : this.relays\<close>,
  as the positions of its sessions. An array is truthy also when it is empty, so
  \<open>Some []\<close> takes the first branch.
\<close>

definition targets :: "string list option \<Rightarrow> manager \<Rightarrow> nat list" where
  "targets relayUrls m =
     (case relayUrls of
        Some us \<Rightarrow> filter (\<lambda>i. url (relays m ! i) \<in> set us) [0..<length (relays m)]
      | None \<Rightarrow> [0..<length (relays m)])"

text \<open>
  \<^verbatim>\<open>if (relayUrls) { for (const relayUrl of relayUrls) this.addRelay(relayUrl) }\<close>, the
  common beginning of \<^verbatim>\<open>subscribe\<close> and \<^verbatim>\<open>publish\<close>.
\<close>

definition ensure_relays :: "int \<Rightarrow> string list option \<Rightarrow> manager \<Rightarrow> manager" where
  "ensure_relays now relayUrls m =
     (case relayUrls of Some us \<Rightarrow> addRelays now us None m | None \<Rightarrow> m)"

text \<open>
  \<^verbatim>\<open>NostrSub\<close>: the handle object, known by its number, which also names its
  \<^verbatim>\<open>_sub\<close>. Its \<^verbatim>\<open>close\<close> is a closure over the array \<^verbatim>\<open>relays\<close> of the
  \<^verbatim>\<open>subscribe\<close> call: \<open>Some is\<close> for the array the filter built, \<open>None\<close> when it is
  \<^verbatim>\<open>this.relays\<close> itself, which \<^verbatim>\<open>close\<close> then reads as it is when it runs.
\<close>

record NostrSub =
  sub_id :: nat
  sub_relays :: "nat list option"

text \<open>The parameters of \<^verbatim>\<open>subscribeMany\<close>: callbacks acting on a state \<open>'s\<close>.\<close>

record 's SubscribeManyParams =
  onevent :: "(NostrEvent \<Rightarrow> 's \<Rightarrow> 's) option"
  oneose :: "('s \<Rightarrow> 's) option"

text \<open>
  The callback \<^verbatim>\<open>subscribe\<close> installs in place of the caller's \<^verbatim>\<open>onevent\<close>.
  \<open>verifyEvent\<close> is the function of that name of nostr-tools.
\<close>

definition wrap_onevent ::
  "(NostrEvent \<Rightarrow> bool) \<Rightarrow> (NostrEvent \<Rightarrow> 's \<Rightarrow> 's) \<Rightarrow> NostrEvent \<Rightarrow> 's \<Rightarrow> 's" where
  "wrap_onevent verifyEvent onevent' event s =
     (if verifyEvent event then onevent' event s else s)"

definition wrap_params ::
  "(NostrEvent \<Rightarrow> bool) \<Rightarrow> 's SubscribeManyParams option \<Rightarrow> 's SubscribeManyParams" where
  "wrap_params verifyEvent ps =
     (case ps of
        None \<Rightarrow> \<lparr>onevent = None, oneose = None\<rparr>
      | Some p \<Rightarrow>
          (case onevent p of
             None \<Rightarrow> p
           | Some f \<Rightarrow> p\<lparr>onevent := Some (wrap_onevent verifyEvent f)\<rparr>))"

text \<open>
  A loop \<^verbatim>\<open>for (const relay of relays)\<close> whose body only assigns to the session:
  \<open>f\<close> is the body, the list holds the positions of the sessions of the array.
\<close>

primrec for_each_relay :: "(NostrRelay \<Rightarrow> NostrRelay) \<Rightarrow> nat list \<Rightarrow> manager \<Rightarrow> manager" where
  "for_each_relay f [] m = m"
| "for_each_relay f (i # is) m = for_each_relay f is (modify_relay i f m)"

text \<open>\<^verbatim>\<open>relay.activeSubs.push(sub)\<close> for every session of the array.\<close>

definition push_loop :: "nat \<Rightarrow> nat list \<Rightarrow> manager \<Rightarrow> manager" where
  "push_loop s is m = for_each_relay (\<lambda>r. r\<lparr>activeSubs := activeSubs r @ [s]\<rparr>) is m"

text \<open>
  \<^verbatim>\<open>subscribe(filters, params, relayUrls?)\<close>. The result pairs what the call returns or
  throws with the manager afterwards; with the handle comes the parameter object as the
  pool received it. The call has no \<^verbatim>\<open>await\<close>, so one clock reading serves it.
\<close>

definition subscribe ::
  "(NostrEvent \<Rightarrow> bool) \<Rightarrow> int \<Rightarrow> NostrFilter list \<Rightarrow> 's SubscribeManyParams option \<Rightarrow>
   string list option \<Rightarrow> manager \<Rightarrow> (error + NostrSub \<times> 's SubscribeManyParams) \<times> manager" where
  "subscribe verifyEvent now filters ps relayUrls m =
     (if falsy (readable (params m)) then (Inl (Error ''not readable''), m)
      else
        let ps1 = wrap_params verifyEvent ps;
            m1 = ensure_relays now relayUrls m;
            rs = targets relayUrls m1;
            sub = \<lparr>sub_id = nextSub m1,
                   sub_relays = (case relayUrls of Some us \<Rightarrow> Some rs | None \<Rightarrow> None)\<rparr>;
            m2 = emit [SubscribeMany (map (\<lambda>i. url (relays m1 ! i)) rs) filters (sub_id sub)]
                   (m1\<lparr>nextSub := Suc (nextSub m1)\<rparr>);
            m3 = push_loop (sub_id sub) rs m2;
            m4 = keepAlive now rs m3
        in (Inr (sub, ps1), m4))"

text \<open>
  \<^verbatim>\<open>sub.close()\<close>: closes the pool's subscription, then takes the handle out of
  \<^verbatim>\<open>activeSubs\<close> of every session of the array (\<^verbatim>\<open>indexOf\<close> and \<^verbatim>\<open>splice(i, 1)\<close>
  remove the first occurrence, if there is one).
\<close>

definition close_loop :: "nat \<Rightarrow> nat list \<Rightarrow> manager \<Rightarrow> manager" where
  "close_loop s is m = for_each_relay (\<lambda>r. r\<lparr>activeSubs := remove1 s (activeSubs r)\<rparr>) is m"

text \<open>The array \<^verbatim>\<open>relays\<close> of the handle, as \<^verbatim>\<open>close\<close> finds it when it runs.\<close>

definition sub_positions :: "NostrSub \<Rightarrow> manager \<Rightarrow> nat list" where
  "sub_positions h m = (case sub_relays h of Some is \<Rightarrow> is | None \<Rightarrow> [0..<length (relays m)])"

definition NostrSub_close :: "NostrSub \<Rightarrow> manager \<Rightarrow> manager" where
  "NostrSub_close h m =
     close_loop (sub_id h) (sub_positions h m) (emit [SubCloserClose (sub_id h)] m)"

text \<open>The pool hands an event to the \<^verbatim>\<open>onevent\<close> of the parameters it was given.\<close>

definition deliver :: "'s SubscribeManyParams \<Rightarrow> NostrEvent \<Rightarrow> 's \<Rightarrow> 's" where
  "deliver ps event s = (case onevent ps of None \<Rightarrow> s | Some f \<Rightarrow> f event s)"

subsection \<open>fetch\<close>

text \<open>
  What \<^verbatim>\<open>fetch\<close> keeps while it runs: the manager, the constant \<^verbatim>\<open>sub\<close> (unassigned
  until \<^verbatim>\<open>subscribe\<close> has returned), \<^verbatim>\<open>fetchedEvents\<close>, the promise it returned
  (\<open>None\<close> while pending) and the state \<open>'c\<close> the caller's own callbacks act on.
  The promise is resolved with the array \<^verbatim>\<open>fetchedEvents\<close> itself, not with a copy.
\<close>

datatype settlement = Resolved | Rejected error

record 'c fetch_state =
  mgr :: manager
  sub :: "NostrSub option"
  fetchedEvents :: "NostrEvent list"
  promise :: "settlement option"
  caller :: 'c

text \<open>A promise settles once: a later \<^verbatim>\<open>resolve\<close> or \<^verbatim>\<open>reject\<close> does nothing.\<close>

definition settle :: "settlement \<Rightarrow> 'c fetch_state \<Rightarrow> 'c fetch_state" where
  "settle v fs = (case promise fs of None \<Rightarrow> fs\<lparr>promise := Some v\<rparr> | Some w \<Rightarrow> fs)"

text \<open>
  What the caller of \<^verbatim>\<open>fetch\<close> has in hand: nothing while the promise is pending, the
  error of a rejected promise, or the array a resolved promise was resolved with, which
  later deliveries still extend.
\<close>

definition outcome :: "'c fetch_state \<Rightarrow> (error + NostrEvent list) option" where
  "outcome fs =
     (case promise fs of
        None \<Rightarrow> None
      | Some Resolved \<Rightarrow> Some (Inr (fetchedEvents fs))
      | Some (Rejected e) \<Rightarrow> Some (Inl e))"

text \<open>The two callbacks \<^verbatim>\<open>fetch\<close> builds around the caller's.\<close>

definition fetch_onevent ::
  "(NostrEvent \<Rightarrow> 'c \<Rightarrow> 'c) \<Rightarrow> NostrEvent \<Rightarrow> 'c fetch_state \<Rightarrow> 'c fetch_state" where
  "fetch_onevent onEvent event fs =
     fs\<lparr>fetchedEvents := fetchedEvents fs @ [event], caller := onEvent event (caller fs)\<rparr>"

text \<open>
  \<^verbatim>\<open>sub!.close(); resolve(fetchedEvents); return onEose!()\<close>. Reading \<^verbatim>\<open>sub\<close> before
  it is assigned throws, and the callback stops there.
\<close>

definition fetch_oneose :: "('c \<Rightarrow> 'c) \<Rightarrow> 'c fetch_state \<Rightarrow> 'c fetch_state" where
  "fetch_oneose onEose fs =
     (case sub fs of
        None \<Rightarrow> fs
      | Some h \<Rightarrow>
          let fs1 = fs\<lparr>mgr := NostrSub_close h (mgr fs)\<rparr>;
              fs2 = settle Resolved fs1
          in fs2\<lparr>caller := onEose (caller fs2)\<rparr>)"

text \<open>
  The caller's callbacks as \<^verbatim>\<open>fetch\<close> takes them: absent parameters or an absent
  callback give a callback that does nothing.
\<close>

definition caller_onevent :: "'c SubscribeManyParams option \<Rightarrow> NostrEvent \<Rightarrow> 'c \<Rightarrow> 'c" where
  "caller_onevent ps =
     (case ps of None \<Rightarrow> (\<lambda>event s. s)
      | Some p \<Rightarrow> (case onevent p of None \<Rightarrow> (\<lambda>event s. s) | Some f \<Rightarrow> f))"

definition caller_oneose :: "'c SubscribeManyParams option \<Rightarrow> 'c \<Rightarrow> 'c" where
  "caller_oneose ps =
     (case ps of None \<Rightarrow> (\<lambda>s. s)
      | Some p \<Rightarrow> (case oneose p of None \<Rightarrow> (\<lambda>s. s) | Some g \<Rightarrow> g))"

text \<open>
  The body of the callback \<^verbatim>\<open>fetch\<close> hands to \<^verbatim>\<open>newPromiseWithTimeout\<close>, up to the
  return of \<^verbatim>\<open>subscribe\<close>: the running fetch, and the parameters the pool holds.
  When \<^verbatim>\<open>subscribe\<close> throws, the callback rejects; the promise of \<^verbatim>\<open>fetch\<close> is left
  pending here, and the timeout settles it.

  The parameters are taken by value. The source assigns its callbacks to the caller's own
  object (as \<^verbatim>\<open>subscribe\<close> does with its wrapper), so a caller who hands the same object
  to a second call hands over the callbacks of the first; calls with an object of their
  own, or with none, are what is modelled here.
\<close>

definition fetch_start ::
  "(NostrEvent \<Rightarrow> bool) \<Rightarrow> int \<Rightarrow> NostrFilter list \<Rightarrow> 'c SubscribeManyParams option \<Rightarrow>
   string list option \<Rightarrow> 'c \<Rightarrow> manager \<Rightarrow>
   'c fetch_state \<times> 'c fetch_state SubscribeManyParams" where
  "fetch_start verifyEvent now filters ps relayUrls c m =
     (let ps1 = \<lparr>onevent = Some (fetch_onevent (caller_onevent ps)),
                 oneose = Some (fetch_oneose (caller_oneose ps))\<rparr>
      in case subscribe verifyEvent now filters (Some ps1) relayUrls m of
           (Inl e, m1) \<Rightarrow>
             (\<lparr>mgr = m1, sub = None, fetchedEvents = [], promise = None, caller = c\<rparr>, ps1)
         | (Inr (h, ps2), m1) \<Rightarrow>
             (\<lparr>mgr = m1, sub = Some h, fetchedEvents = [], promise = None, caller = c\<rparr>, ps2))"

text \<open>
  What reaches a running \<^verbatim>\<open>fetch\<close>: the pool delivers an event or the end of stored
  events to the callbacks it was given, or the timeout elapses.
\<close>

datatype fetch_signal = Delivered NostrEvent | Eose | TimeoutElapsed

text \<open>
  Modelled from the spec: the timeout of \<^verbatim>\<open>newPromiseWithTimeout\<close> (src/utils/timeout.ts,
  which is not among the sources). Following section 4.4 of the specification, when the
  timeout elapses before the promise is resolved, the promise is rejected with a timeout
  error. The helper is handed only the callback; \<^verbatim>\<open>sub\<close> is a local of that callback,
  which takes no more than \<^verbatim>\<open>resolve\<close> and \<^verbatim>\<open>_reject\<close> from the helper, so no code
  runs on the manager at a timeout. The other two signals run the callbacks of the source.
\<close>

definition fetch_signal ::
  "'c fetch_state SubscribeManyParams \<Rightarrow> fetch_signal \<Rightarrow> 'c fetch_state \<Rightarrow> 'c fetch_state" where
  "fetch_signal ps sg fs =
     (case sg of
        Delivered event \<Rightarrow> deliver ps event fs
      | Eose \<Rightarrow> (case oneose ps of None \<Rightarrow> fs | Some g \<Rightarrow> g fs)
      | TimeoutElapsed \<Rightarrow> settle (Rejected TimeoutError) fs)"

primrec fetch_run ::
  "'c fetch_state SubscribeManyParams \<Rightarrow> fetch_signal list \<Rightarrow> 'c fetch_state \<Rightarrow> 'c fetch_state" where
  "fetch_run ps [] fs = fs"
| "fetch_run ps (sg # sgs) fs = fetch_run ps sgs (fetch_signal ps sg fs)"

subsection \<open>Authentication\<close>

text \<open>
  How one attempt on a relay ends, as far as \<^verbatim>\<open>authenticateToRelay\<close> can tell:
  \<^verbatim>\<open>pool.ensureRelay\<close> rejects, or the helper \<^verbatim>\<open>authenticateToRelay\<close> of
  nostr-helper-functions (not among the sources) throws, or it returns a boolean.
\<close>

datatype attempt = EnsureRelayRejects | HelperThrows | HelperReturns bool

text \<open>\<^verbatim>\<open>this.relays.find(r => r.url === u)\<close> followed by an assignment to the session found.\<close>

primrec update_found :: "string \<Rightarrow> (NostrRelay \<Rightarrow> NostrRelay) \<Rightarrow> NostrRelay list \<Rightarrow> NostrRelay list" where
  "update_found u f [] = []"
| "update_found u f (r # rs) = (if url r = u then f r # rs else r # update_found u f rs)"

text \<open>
  The \<^verbatim>\<open>try\<close> block of \<^verbatim>\<open>authenticateToRelay(signer, relayUrl)\<close>: it ends with the
  boolean the helper returned, after storing it in the record and in the session found
  for the url, or with what \<^verbatim>\<open>pool.ensureRelay\<close> or the helper threw.
\<close>

definition authenticateToRelay_try ::
  "(string \<Rightarrow> attempt) \<Rightarrow> int \<Rightarrow> NostrSigner \<Rightarrow> string \<Rightarrow> manager \<Rightarrow> (error + bool) \<times> manager" where
  "authenticateToRelay_try env now signer relayUrl m =
     (let m1 = (if find (\<lambda>r. url r = relayUrl) (relays m) = None
                then addRelay now relayUrl None m else m);
          m2 = emit [EnsureRelay relayUrl None] m1
      in case env relayUrl of
           EnsureRelayRejects \<Rightarrow> (Inl (Thrown (EnsureRelay relayUrl None)), m2)
         | HelperThrows \<Rightarrow>
             (Inl (Thrown (HelperAuthenticate signer relayUrl)),
              emit [HelperAuthenticate signer relayUrl] m2)
         | HelperReturns result \<Rightarrow>
             (let m3 = emit [HelperAuthenticate signer relayUrl] m2;
                  m4 = m3\<lparr>authenticatedRelays := (authenticatedRelays m3)(relayUrl \<mapsto> result)\<rparr>;
                  m5 = m4\<lparr>relays := update_found relayUrl (\<lambda>r. r\<lparr>authenticated := result\<rparr>)
                                       (relays m4)\<rparr>
              in (Inr result,
                  emit [if result then Console LogInfo (AuthSuccessful relayUrl)
                        else Console LogWarn (AuthFailed relayUrl)] m5)))"

text \<open>
  \<^verbatim>\<open>authenticateToRelay\<close>: the \<^verbatim>\<open>try\<close> block, and the \<^verbatim>\<open>catch\<close> that logs the
  error and returns \<^verbatim>\<open>false\<close>.
\<close>

definition authenticateToRelay ::
  "(string \<Rightarrow> attempt) \<Rightarrow> int \<Rightarrow> NostrSigner \<Rightarrow> string \<Rightarrow> manager \<Rightarrow> bool \<times> manager" where
  "authenticateToRelay env now signer relayUrl m =
     (case authenticateToRelay_try env now signer relayUrl m of
        (Inr result, m1) \<Rightarrow> (result, m1)
      | (Inl e, m1) \<Rightarrow> (False, emit [Console LogError (AuthError relayUrl)] m1))"

definition isRelayAuthenticated :: "string \<Rightarrow> manager \<Rightarrow> bool" where
  "isRelayAuthenticated relayUrl m = (authenticatedRelays m relayUrl = Some True)"

text \<open>
  \<^verbatim>\<open>authenticateToRelays(signer, relayUrls?)\<close>. The list of urls it works on is computed
  first. The helper \<^verbatim>\<open>authenticateToRelays\<close> of nostr-helper-functions is not among the
  sources; it receives the manager, the signer and the urls and returns a map, here the
  parameter \<open>helper\<close>, returning the entries of the map in order and the manager as it
  left it.
\<close>

definition authenticateToRelays_urls :: "string list option \<Rightarrow> manager \<Rightarrow> string list" where
  "authenticateToRelays_urls relayUrls m =
     (case relayUrls of
        None \<Rightarrow> map url (relays m)
      | Some us \<Rightarrow> if length us = 0 then map url (relays m) else us)"

primrec store_results :: "(string \<times> bool) list \<Rightarrow> manager \<Rightarrow> manager" where
  "store_results [] m = m"
| "store_results (ur # urs) m =
     store_results urs
       (m\<lparr>authenticatedRelays := (authenticatedRelays m)(fst ur \<mapsto> snd ur),
          relays := update_found (fst ur) (\<lambda>r. r\<lparr>authenticated := snd ur\<rparr>) (relays m)\<rparr>)"

definition authenticateToRelays ::
  "(manager \<Rightarrow> NostrSigner \<Rightarrow> string list \<Rightarrow> (string \<times> bool) list \<times> manager) \<Rightarrow>
   NostrSigner \<Rightarrow> string list option \<Rightarrow> manager \<Rightarrow> (string \<times> bool) list \<times> manager" where
  "authenticateToRelays helper signer relayUrls m =
     (let urls = authenticateToRelays_urls relayUrls m;
          m1 = emit [Console LogInfo (AuthAttempting (length urls)),
                     HelperAuthenticateMany signer urls] m
      in case helper m1 signer urls of
           (results, m2) \<Rightarrow>
             (results,
              emit [Console LogInfo (AuthComplete (length (filter snd results)) (length urls))]
                (store_results results m2)))"

subsection \<open>publish\<close>

text \<open>
  What one iteration of the loop of \<^verbatim>\<open>publish\<close> adds to the trace for a session with
  url \<open>u\<close> that is not authenticated: the calls of \<^verbatim>\<open>authenticateToRelay(signer, u)\<close>
  on a known url, followed by the warning \<^verbatim>\<open>publish\<close> prints when the result is
  \<^verbatim>\<open>false\<close>. It is what the trace of \<open>publish_auth_step\<close> below is compared with.
\<close>

definition auth_calls :: "(string \<Rightarrow> attempt) \<Rightarrow> NostrSigner \<Rightarrow> string \<Rightarrow> effect list" where
  "auth_calls env signer u =
     EnsureRelay u None #
     (case env u of
        EnsureRelayRejects \<Rightarrow> [Console LogError (AuthError u)]
      | HelperThrows \<Rightarrow> [HelperAuthenticate signer u, Console LogError (AuthError u)]
      | HelperReturns result \<Rightarrow>
          [HelperAuthenticate signer u,
           if result then Console LogInfo (AuthSuccessful u) else Console LogWarn (AuthFailed u)]) @
     (if env u = HelperReturns True then [] else [Console LogWarn (PublishingWithoutAuth u)])"

text \<open>
  One iteration of the loop over \<^verbatim>\<open>relays\<close> in \<^verbatim>\<open>publish\<close>. \<^verbatim>\<open>authenticateToRelay\<close>
  does not throw, so the \<^verbatim>\<open>catch\<close> of the loop body is never entered.
\<close>

definition publish_auth_step ::
  "(string \<Rightarrow> attempt) \<Rightarrow> int \<Rightarrow> NostrSigner \<Rightarrow> nat \<Rightarrow> manager \<Rightarrow> manager" where
  "publish_auth_step env now signer i m =
     (let relay = relays m ! i in
      if \<not> authenticated relay
      then (case authenticateToRelay env now signer (url relay) m of
              (result, m1) \<Rightarrow>
                if \<not> result then emit [Console LogWarn (PublishingWithoutAuth (url relay))] m1
                else m1)
      else m)"

primrec publish_auth_loop ::
  "(string \<Rightarrow> attempt) \<Rightarrow> int \<Rightarrow> NostrSigner \<Rightarrow> nat list \<Rightarrow> manager \<Rightarrow> manager" where
  "publish_auth_loop env now signer [] m = m"
| "publish_auth_loop env now signer (i # is) m =
     publish_auth_loop env now signer is (publish_auth_step env now signer i m)"

text \<open>
  The sessions of the array \<^verbatim>\<open>relays\<close> of a \<^verbatim>\<open>subscribe\<close> or \<^verbatim>\<open>publish\<close> call with
  the argument \<open>relayUrls\<close>, as the call finds them once it has ensured the urls.
\<close>

definition targeted_sessions :: "int \<Rightarrow> string list option \<Rightarrow> manager \<Rightarrow> NostrRelay list" where
  "targeted_sessions now relayUrls m =
     map (\<lambda>i. relays (ensure_relays now relayUrls m) ! i)
       (targets relayUrls (ensure_relays now relayUrls m))"

text \<open>
  \<^verbatim>\<open>publish(event, relayUrls?, signer?)\<close>. \<^verbatim>\<open>Promise.allSettled\<close> waits for every send
  and does not reject. The registry does not grow after the array \<^verbatim>\<open>relays\<close> is taken
  (every url the loop authenticates to has a session), so its positions are taken once.
\<close>

definition publish ::
  "(string \<Rightarrow> attempt) \<Rightarrow> int \<Rightarrow> NostrEvent \<Rightarrow> string list option \<Rightarrow> NostrSigner option \<Rightarrow>
   manager \<Rightarrow> (error + unit) \<times> manager" where
  "publish env now event relayUrls signer m =
     (if falsy (writable (params m)) then (Inl (Error ''not writable''), m)
      else
        let m1 = ensure_relays now relayUrls m;
            rs = targets relayUrls m1;
            m2 = keepAlive now rs m1;
            m3 = (case signer of
                    Some s \<Rightarrow>
                      if \<not> falsy (autoAuth (params m2))
                      then publish_auth_loop env now s rs m2 else m2
                  | None \<Rightarrow> m2)
        in (Inr (), emit [PoolPublish (map (\<lambda>i. url (relays m3 ! i)) rs) event] m3))"

subsection \<open>Reading the trace\<close>

text \<open>The urls of the sessions whose \<^verbatim>\<open>disconnect()\<close> was called, in order.\<close>

fun disconnects :: "effect list \<Rightarrow> string list" where
  "disconnects [] = []"
| "disconnects (RelayDisconnect u # es) = u # disconnects es"
| "disconnects (e # es) = disconnects es"

subsection \<open>The registry invariant\<close>

text \<open>
  One session per url; every handle is at most once in an active set; and every handle in
  an active set was created earlier, that is, its number lies below the next one.
\<close>

definition registry_ok :: "manager \<Rightarrow> bool" where
  "registry_ok m =
     (distinct (map url (relays m)) \<and>
      (\<forall>r\<in>set (relays m). distinct (activeSubs r) \<and> (\<forall>s\<in>set (activeSubs r). s < nextSub m)))"

text \<open>What the invariant asks of one session, when \<open>n\<close> is the next handle number.\<close>

definition session_ok :: "nat \<Rightarrow> NostrRelay \<Rightarrow> bool" where
  "session_ok n r = (distinct (activeSubs r) \<and> (\<forall>s\<in>set (activeSubs r). s < n))"

subsection \<open>Example managers\<close>

definition relay_a :: string where "relay_a = ''wss://a.example''"
definition relay_b :: string where "relay_b = ''wss://b.example''"
definition relay_c :: string where "relay_c = ''wss://c.example''"

text \<open>Every disconnect resolves; the clock reads \<open>t\<close> for every session of a sweep.\<close>

definition resolves :: "string \<Rightarrow> bool" where
  "resolves u = True"

definition clock_at :: "int \<Rightarrow> nat \<Rightarrow> int" where
  "clock_at t i = t"

text \<open>\<^verbatim>\<open>new NostrManager([a, b])\<close> at time 0.\<close>

definition manager_ab :: manager where
  "manager_ab = NostrManager_new 0 resolves [relay_a, relay_b] None"

text \<open>
  \<^verbatim>\<open>new NostrManager([a], {keepAliveTime: 60000, gcInterval: 10000})\<close> at time 0: a sweep
  is asked for every ten seconds, sessions may idle for a minute.
\<close>

definition params_gc :: NostrManagerParams where
  "params_gc = \<lparr>connectionTimeout = None, keepAliveTime = 60000, gcInterval = 10000,
                 readable = None, writable = None, autoAuth = None\<rparr>"

definition manager_gc :: manager where
  "manager_gc = NostrManager_new 0 resolves [relay_a] (Some params_gc)"

text \<open>
  A manager with the default parameters whose three sessions are awake: the first idle
  since time 0, the second with one subscription since time 0, the third idle since
  time 200000.
\<close>

definition manager_awake :: manager where
  "manager_awake =
     \<lparr>params = default_params None,
      relays =
        [\<lparr>url = relay_a, activeSubs = [], sleeping = False, lastActive = 0, authenticated = False\<rparr>,
         \<lparr>url = relay_b, activeSubs = [0], sleeping = False, lastActive = 0, authenticated = False\<rparr>,
         \<lparr>url = relay_c, activeSubs = [], sleeping = False, lastActive = 200000, authenticated = False\<rparr>],
      gcTimeout = Some 300000, authenticatedRelays = Map.empty, nextSub = 1,
      calls = [EnsureRelay relay_a None, EnsureRelay relay_b None, EnsureRelay relay_c None,
               SubscribeMany [relay_b] [] 0, RelayConnect relay_a, RelayConnect relay_b,
               RelayConnect relay_c]\<rparr>"

text \<open>
  \<^verbatim>\<open>new NostrManager([a], {readable: false, writable: false})\<close>, the two times being
  those of the default.
\<close>

definition params_closed :: NostrManagerParams where
  "params_closed = \<lparr>connectionTimeout = None, keepAliveTime = 300000, gcInterval = 300000,
                     readable = Some False, writable = Some False, autoAuth = None\<rparr>"

definition manager_closed :: manager where
  "manager_closed = NostrManager_new 0 resolves [relay_a] (Some params_closed)"

text \<open>
  Two events, and a stand-in for \<^verbatim>\<open>verifyEvent\<close> that accepts the first only; a caller
  callback that appends the event it receives to a list; a signer.
\<close>

definition event_good :: NostrEvent where
  "event_good = \<lparr>event_id = ''e1'', pubkey = ''alice'', created_at = 1, kind = 1, tags = [],
                  content = ''hello'', sig = ''signed-by-alice''\<rparr>"

definition event_forged :: NostrEvent where
  "event_forged = \<lparr>event_id = ''e2'', pubkey = ''alice'', created_at = 2, kind = 1, tags = [],
                    content = ''hello'', sig = ''signed-by-mallory''\<rparr>"

definition sig_by_pubkey :: "NostrEvent \<Rightarrow> bool" where
  "sig_by_pubkey event = (sig event = ''signed-by-'' @ pubkey event)"

definition record_event :: "NostrEvent \<Rightarrow> NostrEvent list \<Rightarrow> NostrEvent list" where
  "record_event event seen = seen @ [event]"

definition params_record :: "NostrEvent list SubscribeManyParams" where
  "params_record = \<lparr>onevent = Some record_event, oneose = None\<rparr>"

definition signer_alice :: NostrSigner where
  "signer_alice = ''alice''"

text \<open>
  Relays as \<^verbatim>\<open>authenticateToRelay\<close> may find them: every handshake succeeds; every
  handshake is refused; no relay can be reached.
\<close>

definition accepts :: "string \<Rightarrow> attempt" where
  "accepts u = HelperReturns True"

definition refuses :: "string \<Rightarrow> attempt" where
  "refuses u = HelperReturns False"

definition unreachable :: "string \<Rightarrow> attempt" where
  "unreachable u = EnsureRelayRejects"

text \<open>
  \<^verbatim>\<open>new NostrManager([a, b], {autoAuth: true})\<close> with the default times, and the same
  manager after a successful handshake with relay a at time 1.
\<close>

definition params_auto :: NostrManagerParams where
  "params_auto = \<lparr>connectionTimeout = None, keepAliveTime = 300000, gcInterval = 300000,
                   readable = None, writable = None, autoAuth = Some True\<rparr>"

definition manager_auto :: manager where
  "manager_auto = NostrManager_new 0 resolves [relay_a, relay_b] (Some params_auto)"

definition manager_auto_authed :: manager where
  "manager_auto_authed = snd (authenticateToRelay accepts 1 signer_alice relay_a manager_auto)"

text \<open>The manager of relays a and b after a successful handshake with relay a at time 1.\<close>

definition manager_authed :: manager where
  "manager_authed = snd (authenticateToRelay accepts 1 signer_alice relay_a manager_ab)"

text \<open>
  The manager of relays a and b after \<^verbatim>\<open>publish(event)\<close> at time 0, which wakes both
  sessions; and a call \<^verbatim>\<open>subscribe([], params, [a])\<close> that runs at time 400000 while a
  sweep is suspended at the disconnect of the first session.
\<close>

definition manager_woken :: manager where
  "manager_woken = snd (publish accepts 0 event_good None None manager_ab)"

definition subscribe_meanwhile :: "nat \<Rightarrow> manager \<Rightarrow> manager" where
  "subscribe_meanwhile i m =
     (if i = 0
      then snd (subscribe sig_by_pubkey 400000 [] (Some params_record) (Some [relay_a]) m)
      else m)"



text \<open>
  A stand-in for the helper \<^verbatim>\<open>authenticateToRelays\<close>: it reports a failure for every
  url it is given and leaves the manager alone.
\<close>

definition helper_refused ::
  "manager \<Rightarrow> NostrSigner \<Rightarrow> string list \<Rightarrow> (string \<times> bool) list \<times> manager" where
  "helper_refused m signer urls = (map (\<lambda>u. (u, False)) urls, m)"

text \<open>
  \<^verbatim>\<open>fetch([])\<close> on the manager of relays a and b at time 5, with no callbacks and no
  urls: the running fetch and the parameters the pool holds.
\<close>

definition fetch_ab :: "unit fetch_state \<times> unit fetch_state SubscribeManyParams" where
  "fetch_ab = fetch_start sig_by_pubkey 5 [] None None () manager_ab"

section \<open>Properties\<close>

subsection \<open>Field lemmas\<close>

lemma modify_relay_simps [simp]:
  "params (modify_relay i f m) = params m"
  "calls (modify_relay i f m) = calls m"
  "nextSub (modify_relay i f m) = nextSub m"
  "gcTimeout (modify_relay i f m) = gcTimeout m"
  "authenticatedRelays (modify_relay i f m) = authenticatedRelays m"
  "length (relays (modify_relay i f m)) = length (relays m)"
  "relays (modify_relay i f m) = (relays m)[i := f (relays m ! i)]"
  by (simp_all add: modify_relay_def)

lemma emit_simps [simp]:
  "params (emit es m) = params m"
  "relays (emit es m) = relays m"
  "nextSub (emit es m) = nextSub m"
  "gcTimeout (emit es m) = gcTimeout m"
  "authenticatedRelays (emit es m) = authenticatedRelays m"
  "calls (emit es m) = calls m @ es"
  by (simp_all add: emit_def)

lemma relay_names [simp]:
  "relay_a \<noteq> relay_b" "relay_b \<noteq> relay_a" "relay_a \<noteq> relay_c"
  "relay_c \<noteq> relay_a" "relay_b \<noteq> relay_c" "relay_c \<noteq> relay_b"
  by (simp_all add: relay_a_def relay_b_def relay_c_def)

subsection \<open>addRelay\<close>

lemma addRelay_relays:
  "relays (addRelay now u ct m) =
     (if find (\<lambda>r. url r = u) (relays m) \<noteq> None then relays m
      else relays m @ [\<lparr>url = u, activeSubs = [], sleeping = True,
                        lastActive = now, authenticated = False\<rparr>])"
  by (simp add: addRelay_def)

lemma addRelay_calls:
  "calls (addRelay now u ct m) =
     (if find (\<lambda>r. url r = u) (relays m) \<noteq> None then calls m
      else calls m @ [EnsureRelay u ct])"
  by (simp add: addRelay_def)

lemma addRelay_fields [simp]:
  "params (addRelay now u ct m) = params m"
  "nextSub (addRelay now u ct m) = nextSub m"
  "gcTimeout (addRelay now u ct m) = gcTimeout m"
  "authenticatedRelays (addRelay now u ct m) = authenticatedRelays m"
  by (simp_all add: addRelay_def)

lemma find_url_None: "(find (\<lambda>r. url r = u) rs = None) = (u \<notin> url ` set rs)"
  by (induction rs) simp_all

lemma addRelay_known: "find (\<lambda>r. url r = u) (relays m) \<noteq> None \<Longrightarrow> addRelay now u ct m = m"
  by (simp add: addRelay_def)

lemma addRelay_urls: "url ` set (relays (addRelay now u ct m)) = insert u (url ` set (relays m))"
  by (simp add: addRelay_relays find_url_None insert_absorb)

lemma addRelay_finds: "find (\<lambda>r. url r = u) (relays (addRelay now u ct m)) \<noteq> None"
  by (simp only: find_url_None addRelay_urls) simp

lemma addRelay_distinct:
  "distinct (map url (relays m)) \<Longrightarrow> distinct (map url (relays (addRelay now u ct m)))"
  by (simp add: addRelay_relays find_url_None)

lemma filter_url_count:
  "distinct (map url rs) \<Longrightarrow>
   length (filter (\<lambda>r. url r = u) rs) = (if u \<in> url ` set rs then 1 else 0)"
  by (induction rs) auto

lemma addRelays_fields [simp]:
  "params (addRelays now us ct m) = params m"
  "nextSub (addRelays now us ct m) = nextSub m"
  "gcTimeout (addRelays now us ct m) = gcTimeout m"
  "authenticatedRelays (addRelays now us ct m) = authenticatedRelays m"
  by (induction us arbitrary: m; simp)+

lemma addRelay_sleeping:
  "\<forall>r\<in>set (relays m). sleeping r \<Longrightarrow> \<forall>r\<in>set (relays (addRelay now u ct m)). sleeping r"
  by (simp add: addRelay_relays)

lemma addRelays_sleeping:
  "\<forall>r\<in>set (relays m). sleeping r \<Longrightarrow> \<forall>r\<in>set (relays (addRelays now us ct m)). sleeping r"
proof (induction us arbitrary: m)
  case Nil
  then show ?case by simp
next
  case (Cons u us)
  show ?case
    using Cons.IH [OF addRelay_sleeping [OF Cons.prems]] by simp
qed

subsection \<open>The sweep\<close>

lemma gc_step_fields [simp]:
  "params (gc_step now d idle i m) = params m"
  "length (relays (gc_step now d idle i m)) = length (relays m)"
  "nextSub (gc_step now d idle i m) = nextSub m"
  "authenticatedRelays (gc_step now d idle i m) = authenticatedRelays m"
  "gcTimeout (gc_step now d idle i m) = gcTimeout m"
  by (simp_all add: gc_step_def gc_resume_def gc_suspend_def idle_def Let_def)

lemma gc_step_relays:
  "relays (gc_step now d idle i m) =
     (if gc_due (params m) (now i) (relays m ! i)
      then (relays m)[i := (relays m ! i)\<lparr>sleeping := True\<rparr>] else relays m)"
  by (simp add: gc_step_def gc_resume_def gc_suspend_def idle_def gc_calls_def Let_def)

lemma gc_step_calls:
  "calls (gc_step now d idle i m) =
     calls m @ (if gc_due (params m) (now i) (relays m ! i) then gc_calls d (relays m ! i) else [])"
  by (simp add: gc_step_def gc_resume_def gc_suspend_def idle_def gc_calls_def Let_def)

lemma gc_step_nth:
  "relays (gc_step now d idle i m) ! j =
     (if j = i \<and> j < length (relays m) \<and> gc_due (params m) (now j) (relays m ! j)
      then (relays m ! j)\<lparr>sleeping := True\<rparr> else relays m ! j)"
  by (cases "i = j") (auto simp: gc_step_relays list_update_beyond)

lemma gc_due_sleeping [simp]: "\<not> gc_due p t (r\<lparr>sleeping := True\<rparr>)"
  by (simp add: gc_due_def)

lemma gc_loop_fields [simp]:
  "params (gc_loop now d is m) = params m"
  "length (relays (gc_loop now d is m)) = length (relays m)"
  "nextSub (gc_loop now d is m) = nextSub m"
  "authenticatedRelays (gc_loop now d is m) = authenticatedRelays m"
  "gcTimeout (gc_loop now d is m) = gcTimeout m"
  by (induction "is" arbitrary: m; simp)+

lemma gc_loop_nth:
  "distinct is \<Longrightarrow> j < length (relays m) \<Longrightarrow>
   relays (gc_loop now d is m) ! j =
     (if j \<in> set is \<and> gc_due (params m) (now j) (relays m ! j)
      then (relays m ! j)\<lparr>sleeping := True\<rparr> else relays m ! j)"
proof (induction "is" arbitrary: m)
  case Nil
  then show ?case by simp
next
  case (Cons i "is")
  have "relays (gc_loop now d (i # is) m) ! j =
        (if j \<in> set is \<and> gc_due (params m) (now j) (relays (gc_step now d idle i m) ! j)
         then (relays (gc_step now d idle i m) ! j)\<lparr>sleeping := True\<rparr>
         else relays (gc_step now d idle i m) ! j)"
    using Cons.IH [of "gc_step now d idle i m"] Cons.prems by simp
  also have "\<dots> = (if j \<in> set (i # is) \<and> gc_due (params m) (now j) (relays m ! j)
         then (relays m ! j)\<lparr>sleeping := True\<rparr> else relays m ! j)"
    using Cons.prems by (auto simp: gc_step_nth)
  finally show ?case .
qed

lemma gc_loop_calls:
  "distinct is \<Longrightarrow>
   calls (gc_loop now d is m) =
     calls m @ concat (map (\<lambda>i. if gc_due (params m) (now i) (relays m ! i)
                                 then gc_calls d (relays m ! i) else []) is)"
proof (induction "is" arbitrary: m)
  case Nil
  then show ?case by simp
next
  case (Cons i "is")
  have unchanged: "\<And>k. k \<in> set is \<Longrightarrow> relays (gc_step now d idle i m) ! k = relays m ! k"
    using Cons.prems by (auto simp: gc_step_nth)
  have eq: "map (\<lambda>k. if gc_due (params m) (now k) (relays (gc_step now d idle i m) ! k)
                  then gc_calls d (relays (gc_step now d idle i m) ! k) else []) is
        = map (\<lambda>k. if gc_due (params m) (now k) (relays m ! k)
                  then gc_calls d (relays m ! k) else []) is"
    by (rule map_cong) (simp_all add: unchanged)
  have "calls (gc_loop now d (i # is) m) =
        calls (gc_step now d idle i m) @
        concat (map (\<lambda>k. if gc_due (params m) (now k) (relays (gc_step now d idle i m) ! k)
                  then gc_calls d (relays (gc_step now d idle i m) ! k) else []) is)"
    using Cons.IH [of "gc_step now d idle i m"] Cons.prems by simp
  then show ?case by (simp add: gc_step_calls eq)
qed

lemma gc_loop_all_sleeping:
  "\<forall>i\<in>set is. sleeping (relays m ! i) \<Longrightarrow> gc_loop now d is m = m"
  by (induction "is") (simp_all add: gc_step_def gc_due_def)

lemma gc_fields [simp]:
  "params (gc_alone now d m) = params m"
  "length (relays (gc_alone now d m)) = length (relays m)"
  "nextSub (gc_alone now d m) = nextSub m"
  "authenticatedRelays (gc_alone now d m) = authenticatedRelays m"
  "gcTimeout (gc_alone now d m) = Some (keepAliveTime (params m))"
  by (simp_all add: gc_alone_def Let_def)

lemma gc_relays: "relays (gc_alone now d m) = relays (gc_loop now d [0..<length (relays m)] m)"
  by (simp add: gc_alone_def Let_def)

lemma gc_calls_of: "calls (gc_alone now d m) = calls (gc_loop now d [0..<length (relays m)] m)"
  by (simp add: gc_alone_def Let_def)

text \<open>The loop of the sweep, unrolled; an undisturbed sweep returns \<open>gc_alone\<close>.\<close>

lemma gc_from_done: "\<not> i < length (relays m) \<Longrightarrow> gc_from now d during i m = Some m"
  by (subst gc_from.simps) simp

lemma gc_from_next:
  "i < length (relays m) \<Longrightarrow>
   gc_from now d during i m = gc_from now d during (Suc i) (gc_step now d during i m)"
  by (subst gc_from.simps) simp

lemma gc_from_idle: "gc_from now d idle i m = Some (gc_loop now d [i..<length (relays m)] m)"
proof (induction "length (relays m) - i" arbitrary: i m)
  case 0
  then show ?case by (simp add: gc_from_done)
next
  case (Suc n)
  then have i: "i < length (relays m)"
    by simp
  have "gc_from now d idle (Suc i) (gc_step now d idle i m) =
        Some (gc_loop now d [Suc i..<length (relays (gc_step now d idle i m))]
                (gc_step now d idle i m))"
    using Suc.hyps(2) by (intro Suc.hyps(1)) simp
  then show ?case
    using i by (simp add: gc_from_next upt_conv_Cons)
qed

lemma gc_idle: "gc now d idle m = Some (gc_alone now d m)"
  by (simp add: gc_def gc_from_idle gc_alone_def Let_def)

lemma gc_timer: "gc now d during m = Some m' \<Longrightarrow> gcTimeout m' = Some (keepAliveTime (params m'))"
  by (auto simp: gc_def split: option.splits)

lemma disconnects_append [simp]: "disconnects (es @ fs) = disconnects es @ disconnects fs"
  by (induction es rule: disconnects.induct) simp_all

lemma disconnects_gc_calls [simp]: "disconnects (gc_calls d r) = [url r]"
  by (simp add: gc_calls_def)

lemma disconnects_concat:
  "disconnects (concat (map (\<lambda>i. if P i then gc_calls d (f i) else []) is)) =
     map (\<lambda>i. url (f i)) (filter P is)"
  by (induction "is") simp_all

subsection \<open>The constructor\<close>

lemma NostrManager_new_eq:
  "NostrManager_new now d us ps =
     gc_alone (\<lambda>i. now) d
       (addRelays now us (connectionTimeout (default_params ps))
          \<lparr>params = default_params ps, relays = [], gcTimeout = None,
           authenticatedRelays = Map.empty, nextSub = 0, calls = []\<rparr>)"
  by (simp add: NostrManager_new_def Let_def gc_idle)

lemma NostrManager_new_fields [simp]:
  "params (NostrManager_new now d us ps) = default_params ps"
  "gcTimeout (NostrManager_new now d us ps) = Some (keepAliveTime (default_params ps))"
  "nextSub (NostrManager_new now d us ps) = 0"
  by (simp_all add: NostrManager_new_eq)

lemma NostrManager_new_relays:
  "relays (NostrManager_new now d us ps) =
     relays (addRelays now us (connectionTimeout (default_params ps))
               \<lparr>params = default_params ps, relays = [], gcTimeout = None,
                authenticatedRelays = Map.empty, nextSub = 0, calls = []\<rparr>)"
proof -
  let ?m = "addRelays now us (connectionTimeout (default_params ps))
               \<lparr>params = default_params ps, relays = [], gcTimeout = None,
                authenticatedRelays = Map.empty, nextSub = 0, calls = []\<rparr>"
  have "\<forall>r\<in>set (relays ?m). sleeping r"
    by (rule addRelays_sleeping) simp
  then have "\<forall>i\<in>set [0..<length (relays ?m)]. sleeping (relays ?m ! i)"
    by simp
  then have "gc_loop (\<lambda>i. now) d [0..<length (relays ?m)] ?m = ?m"
    by (rule gc_loop_all_sleeping)
  then show ?thesis
    by (simp add: NostrManager_new_eq gc_relays)
qed

lemma manager_ab_relays:
  "relays manager_ab =
     [\<lparr>url = relay_a, activeSubs = [], sleeping = True, lastActive = 0, authenticated = False\<rparr>,
      \<lparr>url = relay_b, activeSubs = [], sleeping = True, lastActive = 0, authenticated = False\<rparr>]"
  by (simp add: manager_ab_def NostrManager_new_relays addRelay_relays)

lemma manager_ab_eq:
  "manager_ab =
     \<lparr>params = default_params None,
      relays = [\<lparr>url = relay_a, activeSubs = [], sleeping = True, lastActive = 0, authenticated = False\<rparr>,
                \<lparr>url = relay_b, activeSubs = [], sleeping = True, lastActive = 0, authenticated = False\<rparr>],
      gcTimeout = Some 300000, authenticatedRelays = Map.empty, nextSub = 0,
      calls = [EnsureRelay relay_a None, EnsureRelay relay_b None]\<rparr>"
  by (simp add: manager_ab_def NostrManager_new_eq gc_alone_def gc_step_def gc_due_def addRelay_def
      emit_def Let_def default_params_def)

lemma manager_awake_fields:
  "params manager_awake = default_params None"
  "relays manager_awake =
        [\<lparr>url = relay_a, activeSubs = [], sleeping = False, lastActive = 0, authenticated = False\<rparr>,
         \<lparr>url = relay_b, activeSubs = [0], sleeping = False, lastActive = 0, authenticated = False\<rparr>,
         \<lparr>url = relay_c, activeSubs = [], sleeping = False, lastActive = 200000, authenticated = False\<rparr>]"
  "length (calls manager_awake) = 7"
  by (simp_all add: manager_awake_def)

lemma upt_3: "[0..<3] = [0, 1, 2]"
  by (simp add: upt_rec)

subsection \<open>The registry, the timer and the sweep\<close>

text \<open>
  C6. \<^verbatim>\<open>addRelay\<close> is idempotent: the second call with the same url changes nothing,
  whatever time it is made at; in a registry whose urls are distinct (as they are in every
  registry \<^verbatim>\<open>addRelay\<close> built) exactly one session has the url after two calls; and a
  session that had to be created is appended with \<^verbatim>\<open>sleeping = true\<close>,
  \<^verbatim>\<open>lastActive\<close> the current time, \<^verbatim>\<open>authenticated = false\<close> and no subscription.
\<close>

theorem addRelay_idempotent:
  "addRelay now' relayUrl ct' (addRelay now relayUrl ct m) = addRelay now relayUrl ct m \<and>
   (distinct (map url (relays m)) \<longrightarrow>
      length (filter (\<lambda>r. url r = relayUrl)
                (relays (addRelay now' relayUrl ct' (addRelay now relayUrl ct m)))) = 1) \<and>
   (find (\<lambda>r. url r = relayUrl) (relays m) = None \<longrightarrow>
      relays (addRelay now relayUrl ct m) =
        relays m @ [\<lparr>url = relayUrl, activeSubs = [], sleeping = True,
                     lastActive = now, authenticated = False\<rparr>])"
proof (intro conjI impI)
  show twice: "addRelay now' relayUrl ct' (addRelay now relayUrl ct m) = addRelay now relayUrl ct m"
    by (rule addRelay_known) (rule addRelay_finds)
  show "length (filter (\<lambda>r. url r = relayUrl)
          (relays (addRelay now' relayUrl ct' (addRelay now relayUrl ct m)))) = 1"
    if "distinct (map url (relays m))"
    using that by (simp add: twice filter_url_count addRelay_distinct addRelay_urls)
  show "relays (addRelay now relayUrl ct m) =
        relays m @ [\<lparr>url = relayUrl, activeSubs = [], sleeping = True,
                     lastActive = now, authenticated = False\<rparr>]"
    if "find (\<lambda>r. url r = relayUrl) (relays m) = None"
    using that by (simp add: addRelay_relays)
qed

theorem addRelay_idempotent_witness:
  "addRelay 9 relay_c None (addRelay 7 relay_c None manager_ab) = addRelay 7 relay_c None manager_ab \<and>
   length (filter (\<lambda>r. url r = relay_c)
             (relays (addRelay 9 relay_c None (addRelay 7 relay_c None manager_ab)))) = 1 \<and>
   relays (addRelay 7 relay_c None manager_ab) =
     relays manager_ab @ [\<lparr>url = relay_c, activeSubs = [], sleeping = True,
                             lastActive = 7, authenticated = False\<rparr>]"
  using addRelay_idempotent [of 9 relay_c None 7 None manager_ab]
  by (simp add: manager_ab_relays)

text \<open>
  C2. The sweep re-arms its timer with \<^verbatim>\<open>keepAliveTime\<close>, not with \<^verbatim>\<open>gcInterval\<close>: in
  a manager built with a keep-alive time of a minute and a sweep interval of ten seconds,
  the constructor's sweep and every later one schedule the next sweep a minute later.
\<close>

theorem gc_rearms_with_keepAliveTime:
  "gcInterval (params manager_gc) = 10000 \<and>
   keepAliveTime (params manager_gc) = 60000 \<and>
   gcTimeout manager_gc = Some 60000 \<and>
   map_option gcTimeout (gc (clock_at 70000) resolves idle manager_gc) = Some (Some 60000) \<and>
   map_option gcTimeout (gc (clock_at 70000) resolves idle manager_gc) \<noteq>
     Some (Some (gcInterval (params manager_gc)))"
  by (simp add: gc_idle manager_gc_def default_params_def params_gc_def)

text \<open>
  A sweep during which no other call of the manager runs, at the session at position
  \<open>i\<close>: the session is marked sleeping exactly when it was awake, had no active
  subscription and had been idle for longer than \<^verbatim>\<open>keepAliveTime\<close> at the clock reading
  taken for it, and is otherwise left as it was, in every field; the registry keeps its
  length; and the sessions whose \<^verbatim>\<open>disconnect()\<close> the sweep calls are exactly those, in
  registry order.
\<close>

lemma gc_alone_exact:
  assumes "i < length (relays m)"
  shows "relays (gc_alone now disconnectOk m) ! i =
           (if \<not> sleeping (relays m ! i) \<and> activeSubs (relays m ! i) = [] \<and>
               now i - lastActive (relays m ! i) > keepAliveTime (params m)
            then (relays m ! i)\<lparr>sleeping := True\<rparr> else relays m ! i) \<and>
         length (relays (gc_alone now disconnectOk m)) = length (relays m) \<and>
         disconnects (drop (length (calls m)) (calls (gc_alone now disconnectOk m))) =
           map (\<lambda>j. url (relays m ! j))
             (filter (\<lambda>j. \<not> sleeping (relays m ! j) \<and> activeSubs (relays m ! j) = [] \<and>
                          now j - lastActive (relays m ! j) > keepAliveTime (params m))
                [0..<length (relays m)])"
proof (intro conjI)
  show "relays (gc_alone now disconnectOk m) ! i =
           (if \<not> sleeping (relays m ! i) \<and> activeSubs (relays m ! i) = [] \<and>
               now i - lastActive (relays m ! i) > keepAliveTime (params m)
            then (relays m ! i)\<lparr>sleeping := True\<rparr> else relays m ! i)"
  proof -
    have "relays (gc_alone now disconnectOk m) ! i =
            (if gc_due (params m) (now i) (relays m ! i)
             then (relays m ! i)\<lparr>sleeping := True\<rparr> else relays m ! i)"
      using assms by (simp add: gc_relays gc_loop_nth)
    then show ?thesis
      unfolding gc_due_def by simp
  qed
  show "length (relays (gc_alone now disconnectOk m)) = length (relays m)"
    by simp
  have "disconnects (drop (length (calls m)) (calls (gc_alone now disconnectOk m))) =
        map (\<lambda>j. url (relays m ! j))
          (filter (\<lambda>j. gc_due (params m) (now j) (relays m ! j)) [0..<length (relays m)])"
    by (simp add: gc_calls_of gc_loop_calls disconnects_concat)
  then show "disconnects (drop (length (calls m)) (calls (gc_alone now disconnectOk m))) =
           map (\<lambda>j. url (relays m ! j))
             (filter (\<lambda>j. \<not> sleeping (relays m ! j) \<and> activeSubs (relays m ! j) = [] \<and>
                          now j - lastActive (relays m ! j) > keepAliveTime (params m))
                [0..<length (relays m)])"
    by (simp add: gc_due_def)
qed

lemma gc_alone_example:
  "relays (gc_alone (clock_at 400000) resolves manager_awake) ! 0 =
     \<lparr>url = relay_a, activeSubs = [], sleeping = True, lastActive = 0, authenticated = False\<rparr> \<and>
   relays (gc_alone (clock_at 400000) resolves manager_awake) ! 1 = relays manager_awake ! 1 \<and>
   relays (gc_alone (clock_at 400000) resolves manager_awake) ! 2 = relays manager_awake ! 2 \<and>
   disconnects (drop (length (calls manager_awake))
      (calls (gc_alone (clock_at 400000) resolves manager_awake))) = [relay_a]"
  using gc_alone_exact [of 0 manager_awake "clock_at 400000" resolves]
    gc_alone_exact [of 1 manager_awake "clock_at 400000" resolves]
    gc_alone_exact [of 2 manager_awake "clock_at 400000" resolves]
  by (simp add: manager_awake_fields default_params_def clock_at_def upt_3)

text \<open>
  A sweep during which \<^verbatim>\<open>subscribe\<close> runs. Both sessions of the manager are awake,
  without subscription and idle since time 0. The sweep at time 400000 finds the first
  session due and calls its \<^verbatim>\<open>disconnect()\<close>; while the sweep is suspended there,
  \<^verbatim>\<open>subscribe([], params, [a])\<close> runs and puts its handle into the active set of that
  session (which is awake, so it is not connected again).
\<close>

lemma manager_woken_eq:
  "manager_woken =
     \<lparr>params = default_params None,
      relays = [\<lparr>url = relay_a, activeSubs = [], sleeping = False, lastActive = 0, authenticated = False\<rparr>,
                \<lparr>url = relay_b, activeSubs = [], sleeping = False, lastActive = 0, authenticated = False\<rparr>],
      gcTimeout = Some 300000, authenticatedRelays = Map.empty, nextSub = 0,
      calls = [EnsureRelay relay_a None, EnsureRelay relay_b None, RelayConnect relay_a,
               RelayConnect relay_b, PoolPublish [relay_a, relay_b] event_good]\<rparr>"
  by (simp add: manager_woken_def manager_ab_eq publish_def ensure_relays_def targets_def
      keepAlive_step_def modify_relay_def emit_def Let_def default_params_def falsy_def)


lemma subscribe_meanwhile_woken:
  "subscribe_meanwhile 0 (gc_suspend 0 manager_woken) =
     \<lparr>params = default_params None,
      relays = [\<lparr>url = relay_a, activeSubs = [0], sleeping = False, lastActive = 400000,
                  authenticated = False\<rparr>,
                \<lparr>url = relay_b, activeSubs = [], sleeping = False, lastActive = 0, authenticated = False\<rparr>],
      gcTimeout = Some 300000, authenticatedRelays = Map.empty, nextSub = 1,
      calls = [EnsureRelay relay_a None, EnsureRelay relay_b None, RelayConnect relay_a,
               RelayConnect relay_b, PoolPublish [relay_a, relay_b] event_good,
               RelayDisconnect relay_a, SubscribeMany [relay_a] [] 0]\<rparr>"
  by (simp add: subscribe_meanwhile_def gc_suspend_def manager_woken_eq subscribe_def
      ensure_relays_def addRelay_def targets_def push_loop_def keepAlive_step_def modify_relay_def
      emit_def Let_def default_params_def falsy_def)

lemma gc_woken:
  "gc (clock_at 400000) resolves subscribe_meanwhile manager_woken =
     Some \<lparr>params = default_params None,
      relays = [\<lparr>url = relay_a, activeSubs = [0], sleeping = True, lastActive = 400000,
                  authenticated = False\<rparr>,
                \<lparr>url = relay_b, activeSubs = [], sleeping = True, lastActive = 0, authenticated = False\<rparr>],
      gcTimeout = Some 300000, authenticatedRelays = Map.empty, nextSub = 1,
      calls = [EnsureRelay relay_a None, EnsureRelay relay_b None, RelayConnect relay_a,
               RelayConnect relay_b, PoolPublish [relay_a, relay_b] event_good,
               RelayDisconnect relay_a, SubscribeMany [relay_a] [] 0, RelayDisconnect relay_b]\<rparr>"
proof -
  let ?m1 = "\<lparr>params = default_params None,
      relays = [\<lparr>url = relay_a, activeSubs = [0], sleeping = True, lastActive = 400000,
                  authenticated = False\<rparr>,
                \<lparr>url = relay_b, activeSubs = [], sleeping = False, lastActive = 0, authenticated = False\<rparr>],
      gcTimeout = Some 300000, authenticatedRelays = Map.empty, nextSub = 1,
      calls = [EnsureRelay relay_a None, EnsureRelay relay_b None, RelayConnect relay_a,
               RelayConnect relay_b, PoolPublish [relay_a, relay_b] event_good,
               RelayDisconnect relay_a, SubscribeMany [relay_a] [] 0]\<rparr>"
  let ?m2 = "\<lparr>params = default_params None,
      relays = [\<lparr>url = relay_a, activeSubs = [0], sleeping = True, lastActive = 400000,
                  authenticated = False\<rparr>,
                \<lparr>url = relay_b, activeSubs = [], sleeping = True, lastActive = 0, authenticated = False\<rparr>],
      gcTimeout = Some 300000, authenticatedRelays = Map.empty, nextSub = 1,
      calls = [EnsureRelay relay_a None, EnsureRelay relay_b None, RelayConnect relay_a,
               RelayConnect relay_b, PoolPublish [relay_a, relay_b] event_good,
               RelayDisconnect relay_a, SubscribeMany [relay_a] [] 0, RelayDisconnect relay_b]\<rparr>"
  have due: "gc_due (params manager_woken) (clock_at 400000 0) (relays manager_woken ! 0)"
    by (simp add: manager_woken_eq gc_due_def clock_at_def default_params_def)
  have 1: "gc_step (clock_at 400000) resolves subscribe_meanwhile 0 manager_woken = ?m1"
    using due
    by (simp add: gc_step_def Let_def subscribe_meanwhile_woken gc_resume_def resolves_def
        modify_relay_def emit_def)
  have 2: "gc_step (clock_at 400000) resolves subscribe_meanwhile (Suc 0) ?m1 = ?m2"
    by (simp add: gc_step_def Let_def gc_due_def clock_at_def default_params_def gc_suspend_def
        gc_resume_def resolves_def subscribe_meanwhile_def modify_relay_def emit_def)
  have a: "gc_from (clock_at 400000) resolves subscribe_meanwhile 0 manager_woken =
           gc_from (clock_at 400000) resolves subscribe_meanwhile (Suc 0)
             (gc_step (clock_at 400000) resolves subscribe_meanwhile 0 manager_woken)"
    by (rule gc_from_next) (simp add: manager_woken_eq)
  have b: "gc_from (clock_at 400000) resolves subscribe_meanwhile (Suc 0) ?m1 =
           gc_from (clock_at 400000) resolves subscribe_meanwhile (Suc (Suc 0))
             (gc_step (clock_at 400000) resolves subscribe_meanwhile (Suc 0) ?m1)"
    by (rule gc_from_next) simp
  have c: "gc_from (clock_at 400000) resolves subscribe_meanwhile (Suc (Suc 0)) ?m2 = Some ?m2"
    by (rule gc_from_done) simp
  have "gc_from (clock_at 400000) resolves subscribe_meanwhile 0 manager_woken = Some ?m2"
    by (simp only: a 1 b 2 c)
  then show ?thesis
    by (simp add: gc_def default_params_def)
qed

text \<open>
  C3. The sweep sets \<^verbatim>\<open>sleeping = true\<close> on a session with an active subscription. The
  first session of the manager is due at time 400000; \<^verbatim>\<open>subscribe([], params, [a])\<close>
  runs while the sweep waits for its \<^verbatim>\<open>disconnect()\<close> and leaves the handle 0 in its
  active set; the sweep then marks the session sleeping without testing it again. After
  the sweep the session carries the handle, is marked sleeping, and its transport has been
  disconnected.
\<close>

theorem gc_sleeps_subscribed_session:
  "gc_due (params manager_woken) 400000 (relays manager_woken ! 0) \<and>
   activeSubs (relays (subscribe_meanwhile 0 (gc_suspend 0 manager_woken)) ! 0) = [0] \<and>
   map_option relays (gc (clock_at 400000) resolves subscribe_meanwhile manager_woken) =
     Some [\<lparr>url = relay_a, activeSubs = [0], sleeping = True, lastActive = 400000,
             authenticated = False\<rparr>,
           \<lparr>url = relay_b, activeSubs = [], sleeping = True, lastActive = 0,
             authenticated = False\<rparr>] \<and>
   map_option (disconnects \<circ> calls) (gc (clock_at 400000) resolves subscribe_meanwhile manager_woken) =
     Some [relay_a, relay_b]"
  by (simp add: gc_woken subscribe_meanwhile_woken)
    (simp add: manager_woken_eq gc_due_def default_params_def)

subsection \<open>Capabilities, event delivery and empty url lists\<close>

lemma subscribe_not_readable:
  "falsy (readable (params m)) \<Longrightarrow>
   subscribe verifyEvent now filters ps relayUrls m = (Inl (Error ''not readable''), m)"
  by (simp add: subscribe_def)

lemma publish_not_writable:
  "falsy (writable (params m)) \<Longrightarrow>
   publish env now event relayUrls signer m = (Inl (Error ''not writable''), m)"
  by (simp add: publish_def)

lemma default_params_flags:
  "readable (default_params (Some p)) = Some (case readable p of None \<Rightarrow> True | Some b \<Rightarrow> b)"
  "writable (default_params (Some p)) = Some (case writable p of None \<Rightarrow> True | Some b \<Rightarrow> b)"
  "autoAuth (default_params (Some p)) = Some (case autoAuth p of None \<Rightarrow> False | Some b \<Rightarrow> b)"
  "readable (default_params None) = Some True"
  "writable (default_params None) = Some True"
  "autoAuth (default_params None) = Some False"
  by (simp_all add: default_params_def)

lemma subscribe_readable:
  "\<not> falsy (readable (params m)) \<Longrightarrow>
   \<exists>h m'. subscribe verifyEvent now filters ps relayUrls m =
     (Inr (h, wrap_params verifyEvent ps), m')"
  by (simp add: subscribe_def Let_def)

lemma deliver_wrap_params:
  "onevent p = Some f \<Longrightarrow>
   deliver (wrap_params verifyEvent (Some p)) event s = (if verifyEvent event then f event s else s)"
  by (simp add: deliver_def wrap_params_def wrap_onevent_def)

lemma targets_empty [simp]: "targets (Some []) m = []"
  by (simp add: targets_def)

lemma keepAlive_Nil: "keepAlive now [] m = m"
  by simp

lemma subscribe_empty:
  "\<not> falsy (readable (params m)) \<Longrightarrow>
   subscribe verifyEvent now filters ps (Some []) m =
     (Inr (\<lparr>sub_id = nextSub m, sub_relays = Some []\<rparr>, wrap_params verifyEvent ps),
      m\<lparr>nextSub := Suc (nextSub m), calls := calls m @ [SubscribeMany [] filters (nextSub m)]\<rparr>)"
  by (simp add: subscribe_def Let_def push_loop_def emit_def ensure_relays_def)

lemma publish_empty:
  "\<not> falsy (writable (params m)) \<Longrightarrow>
   publish env now event (Some []) signer m =
     (Inr (), m\<lparr>calls := calls m @ [PoolPublish [] event]\<rparr>)"
  by (cases signer) (simp_all add: publish_def Let_def emit_def ensure_relays_def)

text \<open>
  C5. On a manager whose \<^verbatim>\<open>readable\<close> flag is false, \<^verbatim>\<open>subscribe\<close> throws
  \<^verbatim>\<open>not readable\<close> and leaves the manager as it was, sessions and trace of outside calls
  included; likewise \<^verbatim>\<open>publish\<close> with \<^verbatim>\<open>not writable\<close> when \<^verbatim>\<open>writable\<close> is false.
  A manager constructed with the flag false has it false.
\<close>

theorem capability_errors:
  "(falsy (readable (params m)) \<longrightarrow>
      subscribe verifyEvent now filters ps relayUrls m = (Inl (Error ''not readable''), m)) \<and>
   (falsy (writable (params m)) \<longrightarrow>
      publish env now event relayUrls signer m = (Inl (Error ''not writable''), m)) \<and>
   (readable p = Some False \<longrightarrow> falsy (readable (params (NostrManager_new now0 d us (Some p))))) \<and>
   (writable p = Some False \<longrightarrow> falsy (writable (params (NostrManager_new now0 d us (Some p)))))"
  by (simp add: subscribe_not_readable publish_not_writable default_params_flags falsy_def)

theorem capability_errors_witness:
  "subscribe sig_by_pubkey 5 [] (Some params_record) (Some [relay_b]) manager_closed =
     (Inl (Error ''not readable''), manager_closed) \<and>
   publish accepts 5 event_good (Some [relay_b]) (Some signer_alice) manager_closed =
     (Inl (Error ''not writable''), manager_closed)"
  using capability_errors [of manager_closed sig_by_pubkey 5 "[]" "Some params_record"
      "Some [relay_b]" accepts event_good "Some signer_alice" params_closed 0 resolves "[relay_a]"]
  by (simp add: manager_closed_def params_closed_def falsy_def default_params_flags)

text \<open>
  C4. When \<^verbatim>\<open>subscribe\<close> is given an \<^verbatim>\<open>onevent\<close> callback \<open>f\<close>, an event the pool
  delivers to the subscription reaches \<open>f\<close> exactly when \<open>verifyEvent\<close> accepts it; any
  other event leaves the state the callbacks act on untouched, whatever \<open>f\<close> is (so also
  for a callback that records every call), and nothing is thrown.
\<close>

theorem subscribe_delivers_verified_only:
  assumes "subscribe verifyEvent now filters (Some ps) relayUrls m = (Inr (h, ps'), m')"
    and "onevent ps = Some f"
  shows "deliver ps' event s = (if verifyEvent event then f event s else s)"
proof -
  have "\<not> falsy (readable (params m))"
    using assms(1) by (auto simp: subscribe_def)
  then obtain h0 m0 where
    "subscribe verifyEvent now filters (Some ps) relayUrls m =
       (Inr (h0, wrap_params verifyEvent (Some ps)), m0)"
    using subscribe_readable by blast
  with assms(1) have "ps' = wrap_params verifyEvent (Some ps)"
    by simp
  then show ?thesis
    using assms(2) by (simp add: deliver_wrap_params)
qed

lemma manager_ab_readable: "\<not> falsy (readable (params manager_ab))"
  by (simp add: manager_ab_def default_params_flags falsy_def)

lemma manager_ab_writable: "\<not> falsy (writable (params manager_ab))"
  by (simp add: manager_ab_def default_params_flags falsy_def)

theorem subscribe_delivers_verified_only_witness:
  "(case subscribe sig_by_pubkey 5 [] (Some params_record) None manager_ab of
      (Inl e, m') \<Rightarrow> False
    | (Inr (h, ps'), m') \<Rightarrow>
        deliver ps' event_forged [] = [] \<and> deliver ps' event_good [] = [event_good])"
proof -
  obtain h m' where sub:
    "subscribe sig_by_pubkey 5 [] (Some params_record) None manager_ab =
       (Inr (h, wrap_params sig_by_pubkey (Some params_record)), m')"
    using subscribe_readable [OF manager_ab_readable] by blast
  have cb: "onevent params_record = Some record_event"
    by (simp add: params_record_def)
  show ?thesis
    using subscribe_delivers_verified_only [OF sub cb, of event_forged "[]"]
      subscribe_delivers_verified_only [OF sub cb, of event_good "[]"]
    by (simp add: sub sig_by_pubkey_def event_good_def event_forged_def record_event_def)
qed

lemma store_results_calls [simp]: "calls (store_results urs m) = calls m"
  by (induction urs arbitrary: m) simp_all

text \<open>
  C10. An explicit empty list of urls: \<^verbatim>\<open>subscribe\<close> and \<^verbatim>\<open>publish\<close> take the filtered
  array, which is empty, so the subscription is opened on no relay and spans no session,
  the event is published to no relay, and no session changes, however many the registry
  holds; \<^verbatim>\<open>authenticateToRelays\<close> replaces the empty list by the urls of all sessions: it
  announces as many attempts as there are sessions, hands the urls of all sessions to the
  helper, stores what the helper returns, and so does what it does when no list is given.
\<close>

theorem empty_relayUrls:
  "(\<not> falsy (readable (params m)) \<longrightarrow>
      subscribe verifyEvent now filters ps (Some []) m =
        (Inr (\<lparr>sub_id = nextSub m, sub_relays = Some []\<rparr>, wrap_params verifyEvent ps),
         m\<lparr>nextSub := Suc (nextSub m),
           calls := calls m @ [SubscribeMany [] filters (nextSub m)]\<rparr>)) \<and>
   (\<not> falsy (writable (params m)) \<longrightarrow>
      publish env now event (Some []) signer m =
        (Inr (), m\<lparr>calls := calls m @ [PoolPublish [] event]\<rparr>)) \<and>
   authenticateToRelays_urls (Some []) m = map url (relays m) \<and>
   authenticateToRelays helper signer' (Some []) m = authenticateToRelays helper signer' None m \<and>
   authenticateToRelays helper signer' (Some []) m =
     (case helper (emit [Console LogInfo (AuthAttempting (length (relays m))),
                         HelperAuthenticateMany signer' (map url (relays m))] m)
             signer' (map url (relays m)) of
        (results, m2) \<Rightarrow>
          (results,
           emit [Console LogInfo (AuthComplete (length (filter snd results)) (length (relays m)))]
             (store_results results m2)))"
  by (simp add: subscribe_empty publish_empty authenticateToRelays_urls_def authenticateToRelays_def
      Let_def)

theorem empty_relayUrls_witness:
  "subscribe sig_by_pubkey 5 [] (Some params_record) (Some []) manager_ab =
     (Inr (\<lparr>sub_id = 0, sub_relays = Some []\<rparr>, wrap_params sig_by_pubkey (Some params_record)),
      manager_ab\<lparr>nextSub := 1, calls := calls manager_ab @ [SubscribeMany [] [] 0]\<rparr>) \<and>
   publish accepts 5 event_good (Some []) (Some signer_alice) manager_ab =
     (Inr (), manager_ab\<lparr>calls := calls manager_ab @ [PoolPublish [] event_good]\<rparr>) \<and>
   authenticateToRelays_urls (Some []) manager_ab = [relay_a, relay_b] \<and>
   fst (authenticateToRelays helper_refused signer_alice (Some []) manager_ab) =
     [(relay_a, False), (relay_b, False)] \<and>
   calls (snd (authenticateToRelays helper_refused signer_alice (Some []) manager_ab)) =
     calls manager_ab @
     [Console LogInfo (AuthAttempting 2), HelperAuthenticateMany signer_alice [relay_a, relay_b],
      Console LogInfo (AuthComplete 0 2)]"
proof -
  note t = empty_relayUrls [of manager_ab sig_by_pubkey 5 "[]" "Some params_record" accepts
      event_good "Some signer_alice" helper_refused signer_alice]
  have n: "nextSub manager_ab = 0"
    by (simp add: manager_ab_def)
  from t have s: "subscribe sig_by_pubkey 5 [] (Some params_record) (Some []) manager_ab =
     (Inr (\<lparr>sub_id = 0, sub_relays = Some []\<rparr>, wrap_params sig_by_pubkey (Some params_record)),
      manager_ab\<lparr>nextSub := 1, calls := calls manager_ab @ [SubscribeMany [] [] 0]\<rparr>)"
    by (simp add: manager_ab_readable n)
  from t have p: "publish accepts 5 event_good (Some []) (Some signer_alice) manager_ab =
     (Inr (), manager_ab\<lparr>calls := calls manager_ab @ [PoolPublish [] event_good]\<rparr>)"
    by (simp add: manager_ab_writable)
  from t have u: "authenticateToRelays_urls (Some []) manager_ab = [relay_a, relay_b]"
    by (simp add: manager_ab_relays)
  from t have "authenticateToRelays helper_refused signer_alice (Some []) manager_ab =
     (case helper_refused
             (emit [Console LogInfo (AuthAttempting (length (relays manager_ab))),
                    HelperAuthenticateMany signer_alice (map url (relays manager_ab))] manager_ab)
             signer_alice (map url (relays manager_ab)) of
        (results, m2) \<Rightarrow>
          (results,
           emit [Console LogInfo (AuthComplete (length (filter snd results))
                                    (length (relays manager_ab)))]
             (store_results results m2)))"
    by blast
  then have a: "authenticateToRelays helper_refused signer_alice (Some []) manager_ab =
     ([(relay_a, False), (relay_b, False)],
      emit [Console LogInfo (AuthComplete 0 2)]
        (store_results [(relay_a, False), (relay_b, False)]
           (emit [Console LogInfo (AuthAttempting 2),
                  HelperAuthenticateMany signer_alice [relay_a, relay_b]] manager_ab)))"
    by (simp add: helper_refused_def manager_ab_relays)
  show ?thesis
    unfolding s p u a by (simp del: store_results.simps)
qed

subsection \<open>Iterating over sessions\<close>

lemma for_each_relay_fields [simp]:
  "params (for_each_relay f is m) = params m"
  "calls (for_each_relay f is m) = calls m"
  "nextSub (for_each_relay f is m) = nextSub m"
  "gcTimeout (for_each_relay f is m) = gcTimeout m"
  "authenticatedRelays (for_each_relay f is m) = authenticatedRelays m"
  "length (relays (for_each_relay f is m)) = length (relays m)"
  by (induction "is" arbitrary: m; simp)+

lemma for_each_relay_nth:
  "distinct is \<Longrightarrow> j < length (relays m) \<Longrightarrow>
   relays (for_each_relay f is m) ! j = (if j \<in> set is then f (relays m ! j) else relays m ! j)"
proof (induction "is" arbitrary: m)
  case Nil
  then show ?case by simp
next
  case (Cons i "is")
  then show ?case
    by (cases "i = j") (simp_all add: nth_list_update)
qed

lemma for_each_relay_same:
  "\<forall>i\<in>set is. i < length (relays m) \<longrightarrow> f (relays m ! i) = relays m ! i \<Longrightarrow>
   relays (for_each_relay f is m) = relays m"
proof (induction "is" arbitrary: m)
  case Nil
  then show ?case by simp
next
  case (Cons i "is")
  have step: "modify_relay i f m = m"
    using Cons.prems by (cases "i < length (relays m)") (simp_all add: modify_relay_def list_update_beyond)
  show ?case
    using Cons.IH [of m] Cons.prems by (simp add: step)
qed

lemma list_update_url:
  "url (f (rs ! i)) = url (rs ! i) \<Longrightarrow> map url (rs[i := f (rs ! i)]) = map url rs"
  by (cases "i < length rs") (simp_all add: map_update list_update_same_conv list_update_beyond)

lemma for_each_relay_urls:
  "(\<And>r. url (f r) = url r) \<Longrightarrow> map url (relays (for_each_relay f is m)) = map url (relays m)"
  by (induction "is" arbitrary: m) (simp_all add: list_update_url)

lemma keepAlive_step_fields [simp]:
  "params (keepAlive_step now i m) = params m"
  "nextSub (keepAlive_step now i m) = nextSub m"
  "gcTimeout (keepAlive_step now i m) = gcTimeout m"
  "authenticatedRelays (keepAlive_step now i m) = authenticatedRelays m"
  "length (relays (keepAlive_step now i m)) = length (relays m)"
  by (simp_all add: keepAlive_step_def Let_def)

lemma keepAlive_step_nth:
  "j < length (relays m) \<Longrightarrow>
   relays (keepAlive_step now i m) ! j =
     (if j = i then (relays m ! j)\<lparr>sleeping := False, lastActive := now\<rparr> else relays m ! j)"
  by (cases "i = j") (simp_all add: keepAlive_step_def Let_def)

lemma keepAlive_fields [simp]:
  "params (keepAlive now is m) = params m"
  "nextSub (keepAlive now is m) = nextSub m"
  "gcTimeout (keepAlive now is m) = gcTimeout m"
  "authenticatedRelays (keepAlive now is m) = authenticatedRelays m"
  "length (relays (keepAlive now is m)) = length (relays m)"
  by (induction "is" arbitrary: m; simp)+

lemma keepAlive_nth:
  "j < length (relays m) \<Longrightarrow>
   relays (keepAlive now is m) ! j =
     (if j \<in> set is then (relays m ! j)\<lparr>sleeping := False, lastActive := now\<rparr>
      else relays m ! j)"
proof (induction "is" arbitrary: m)
  case Nil
  then show ?case by simp
next
  case (Cons i "is")
  then show ?case
    by (cases "i = j") (simp_all add: keepAlive_step_nth)
qed

lemma keepAlive_urls: "map url (relays (keepAlive now is m)) = map url (relays m)"
  by (rule nth_equalityI) (simp_all add: keepAlive_nth)

lemma targets_distinct [simp]: "distinct (targets relayUrls m)"
  by (cases relayUrls) (simp_all add: targets_def)

lemma targets_bound: "i \<in> set (targets relayUrls m) \<Longrightarrow> i < length (relays m)"
  by (cases relayUrls) (simp_all add: targets_def)

lemma targets_urls:
  assumes "map url (relays m) = map url (relays m')"
  shows "targets relayUrls m = targets relayUrls m'"
proof -
  have len: "length (relays m) = length (relays m')"
    using assms by (rule map_eq_imp_length_eq)
  have "url (relays m ! i) = url (relays m' ! i)" if "i < length (relays m')" for i
    using that len nth_map [of i "relays m" url] nth_map [of i "relays m'" url] assms by simp
  then have "filter (\<lambda>i. url (relays m ! i) \<in> set us) [0..<length (relays m')] =
             filter (\<lambda>i. url (relays m' ! i) \<in> set us) [0..<length (relays m')]" for us
    by (intro filter_cong) simp_all
  then show ?thesis
    by (cases relayUrls) (simp_all add: targets_def len)
qed

subsection \<open>Subscribing and closing\<close>

lemma addRelay_appends:
  "\<exists>new. relays (addRelay now u ct m) = relays m @ new \<and> (\<forall>r\<in>set new. activeSubs r = [])"
  by (simp add: addRelay_relays)

lemma addRelays_appends:
  "\<exists>new. relays (addRelays now us ct m) = relays m @ new \<and> (\<forall>r\<in>set new. activeSubs r = [])"
proof (induction us arbitrary: m)
  case Nil
  then show ?case by simp
next
  case (Cons u us)
  obtain new1 where 1: "relays (addRelay now u ct m) = relays m @ new1"
    "\<forall>r\<in>set new1. activeSubs r = []"
    using addRelay_appends by blast
  obtain new2 where 2:
    "relays (addRelays now us ct (addRelay now u ct m)) = relays (addRelay now u ct m) @ new2"
    "\<forall>r\<in>set new2. activeSubs r = []"
    using Cons.IH by blast
  have "relays (addRelays now (u # us) ct m) = relays m @ (new1 @ new2)"
    using 1 2 by simp
  moreover have "\<forall>r\<in>set (new1 @ new2). activeSubs r = []"
    using 1 2 by auto
  ultimately show ?case by blast
qed

lemma ensure_relays_appends:
  "\<exists>new. relays (ensure_relays now relayUrls m) = relays m @ new \<and>
         (\<forall>r\<in>set new. activeSubs r = [])"
proof (cases relayUrls)
  case None
  then show ?thesis by (simp add: ensure_relays_def)
next
  case (Some us)
  then show ?thesis using addRelays_appends [of now us None m] by (simp add: ensure_relays_def)
qed

lemma ensure_relays_fields [simp]:
  "params (ensure_relays now relayUrls m) = params m"
  "nextSub (ensure_relays now relayUrls m) = nextSub m"
  "gcTimeout (ensure_relays now relayUrls m) = gcTimeout m"
  "authenticatedRelays (ensure_relays now relayUrls m) = authenticatedRelays m"
  by (cases relayUrls; simp add: ensure_relays_def)+

lemma subscribe_result:
  "\<not> falsy (readable (params m)) \<Longrightarrow>
   subscribe verifyEvent now filters ps relayUrls m =
     (Inr (\<lparr>sub_id = nextSub m,
             sub_relays = (case relayUrls of
                             Some us \<Rightarrow> Some (targets relayUrls (ensure_relays now relayUrls m))
                           | None \<Rightarrow> None)\<rparr>,
           wrap_params verifyEvent ps),
      keepAlive now (targets relayUrls (ensure_relays now relayUrls m))
        (push_loop (nextSub m) (targets relayUrls (ensure_relays now relayUrls m))
           (emit [SubscribeMany
                    (map (\<lambda>i. url (relays (ensure_relays now relayUrls m) ! i))
                       (targets relayUrls (ensure_relays now relayUrls m)))
                    filters (nextSub m)]
              ((ensure_relays now relayUrls m)\<lparr>nextSub := Suc (nextSub m)\<rparr>))))"
  by (simp add: subscribe_def Let_def)

lemma subscribe_readable_only:
  "subscribe verifyEvent now filters ps relayUrls m = (Inr x, m') \<Longrightarrow> \<not> falsy (readable (params m))"
  by (cases "falsy (readable (params m))") (simp_all add: subscribe_def)

lemma targets_nextSub [simp]: "targets relayUrls (m\<lparr>nextSub := n\<rparr>) = targets relayUrls m"
  by (cases relayUrls) (simp_all add: targets_def)

text \<open>
  The sessions after a subscription: the handle is appended to the active set of every
  session of the array of the call, which is awake with \<^verbatim>\<open>lastActive\<close> the time of
  the call, and no other session changes.
\<close>

lemma subscribed_nth:
  assumes "j < length (relays m1)"
  shows "relays (keepAlive now (targets relayUrls m1)
                   (push_loop s (targets relayUrls m1) (emit es (m1\<lparr>nextSub := n\<rparr>)))) ! j =
           (if j \<in> set (targets relayUrls m1)
            then (relays m1 ! j)\<lparr>activeSubs := activeSubs (relays m1 ! j) @ [s],
                                   sleeping := False, lastActive := now\<rparr>
            else relays m1 ! j)"
  using assms by (simp add: keepAlive_nth push_loop_def for_each_relay_nth)

lemma subscribed_urls:
  "map url (relays (keepAlive now rs (push_loop s rs (emit es (m1\<lparr>nextSub := n\<rparr>))))) =
     map url (relays m1)"
  by (simp add: keepAlive_urls push_loop_def for_each_relay_urls)

lemma closed_nth:
  assumes "distinct is" "j < length (relays m)"
  shows "relays (close_loop s is (emit es m)) ! j =
           (if j \<in> set is then (relays m ! j)\<lparr>activeSubs := remove1 s (activeSubs (relays m ! j))\<rparr>
            else relays m ! j)"
  using assms by (simp add: close_loop_def for_each_relay_nth)

lemma closed_absent:
  assumes "\<forall>r\<in>set (relays m). s \<notin> set (activeSubs r)"
  shows "relays (close_loop s is (emit es m)) = relays m"
proof -
  have "\<forall>i\<in>set is. i < length (relays (emit es m)) \<longrightarrow>
          (relays (emit es m) ! i)\<lparr>activeSubs := remove1 s (activeSubs (relays (emit es m) ! i))\<rparr> =
          relays (emit es m) ! i"
    using assms by (simp add: remove1_idem)
  then show ?thesis
    unfolding close_loop_def by (simp add: for_each_relay_same)
qed

lemma NostrSub_close_absent:
  "\<forall>r\<in>set (relays m). sub_id h \<notin> set (activeSubs r) \<Longrightarrow> relays (NostrSub_close h m) = relays m"
  by (simp add: NostrSub_close_def sub_positions_def closed_absent)

text \<open>
  A handle closed right after \<^verbatim>\<open>subscribe\<close> returned it, in a registry whose handles
  were all created before (their numbers lie below the next one): \<open>h\<close> is in the active
  set of every targeted session; after \<^verbatim>\<open>h.close()\<close> it is in the active set of no
  session, and the active sets of the sessions that existed before the call are what they
  were before it; a second \<^verbatim>\<open>h.close()\<close> leaves every session as it is.
\<close>

lemma subscribe_then_close:
  assumes sub: "subscribe verifyEvent now filters ps relayUrls m = (Inr (h, ps'), m')"
    and fresh: "\<forall>r\<in>set (relays m). \<forall>s\<in>set (activeSubs r). s < nextSub m"
  shows "(\<forall>i\<in>set (targets relayUrls m'). sub_id h \<in> set (activeSubs (relays m' ! i))) \<and>
         (\<forall>r\<in>set (relays (NostrSub_close h m')). sub_id h \<notin> set (activeSubs r)) \<and>
         (\<forall>j<length (relays m).
            activeSubs (relays (NostrSub_close h m') ! j) = activeSubs (relays m ! j)) \<and>
         relays (NostrSub_close h (NostrSub_close h m')) = relays (NostrSub_close h m')"
proof -
  define m1 where "m1 = ensure_relays now relayUrls m"
  define rs where "rs = targets relayUrls m1"
  define s where "s = nextSub m"
  define m2 where "m2 = emit [SubscribeMany (map (\<lambda>i. url (relays m1 ! i)) rs) filters s]
                          (m1\<lparr>nextSub := Suc s\<rparr>)"
  have "\<not> falsy (readable (params m))"
    using sub by (rule subscribe_readable_only)
  from subscribe_result [OF this, of verifyEvent now filters ps relayUrls] sub
  have h: "h = \<lparr>sub_id = s, sub_relays = (case relayUrls of Some us \<Rightarrow> Some rs | None \<Rightarrow> None)\<rparr>"
    and m': "m' = keepAlive now rs (push_loop s rs m2)"
    unfolding m1_def rs_def s_def m2_def by simp_all
  have sid: "sub_id h = s"
    by (simp add: h)
  obtain new where new: "relays m1 = relays m @ new" "\<forall>r\<in>set new. activeSubs r = []"
    unfolding m1_def using ensure_relays_appends by blast
  have fresh1: "s \<notin> set (activeSubs r)" if "r \<in> set (relays m1)" for r
    using that fresh new by (auto simp: s_def)
  have len: "length (relays m') = length (relays m1)"
    by (simp add: m' push_loop_def m2_def)
  have nth': "relays m' ! j =
                (if j \<in> set rs
                 then (relays m1 ! j)\<lparr>activeSubs := activeSubs (relays m1 ! j) @ [s],
                                        sleeping := False, lastActive := now\<rparr>
                 else relays m1 ! j)" if "j < length (relays m1)" for j
    unfolding m' m2_def rs_def using that by (rule subscribed_nth)
  have tg: "targets relayUrls m' = rs"
    unfolding rs_def m' m2_def by (rule targets_urls) (rule subscribed_urls)
  have bound: "j < length (relays m1)" if "j \<in> set rs" for j
    using that unfolding rs_def by (rule targets_bound)
  have cl: "sub_positions h m' = rs"
    by (cases relayUrls) (simp_all add: sub_positions_def h len rs_def targets_def)
  have closed: "NostrSub_close h m' = close_loop s rs (emit [SubCloserClose s] m')"
    by (simp add: NostrSub_close_def cl sid)
  have subs: "activeSubs (relays (NostrSub_close h m') ! j) = activeSubs (relays m1 ! j)"
    if "j < length (relays m1)" for j
  proof -
    have "s \<notin> set (activeSubs (relays m1 ! j))"
      using that by (intro fresh1) simp
    then show ?thesis
      using that by (simp add: closed closed_nth rs_def len nth' remove1_append)
  qed
  have len2: "length (relays (NostrSub_close h m')) = length (relays m1)"
    by (simp add: closed close_loop_def len)
  have 1: "\<forall>i\<in>set (targets relayUrls m'). sub_id h \<in> set (activeSubs (relays m' ! i))"
    using bound by (simp add: tg sid nth')
  have 2: "\<forall>r\<in>set (relays (NostrSub_close h m')). sub_id h \<notin> set (activeSubs r)"
    unfolding all_set_conv_all_nth len2 sid
    using fresh1 by (simp add: subs)
  have 3: "\<forall>j<length (relays m).
             activeSubs (relays (NostrSub_close h m') ! j) = activeSubs (relays m ! j)"
    using new(1) by (simp add: subs nth_append)
  have 4: "relays (NostrSub_close h (NostrSub_close h m')) = relays (NostrSub_close h m')"
    using 2 by (rule NostrSub_close_absent)
  from 1 2 3 4 show ?thesis by blast
qed

lemma NostrSub_close_length [simp]:
  "length (relays (NostrSub_close h m)) = length (relays m)"
  by (simp add: NostrSub_close_def sub_positions_def close_loop_def)

lemma manager_ab_nextSub [simp]: "nextSub manager_ab = 0"
  by (simp add: manager_ab_def)

lemma manager_ab_knows_b: "ensure_relays 5 (Some [relay_b]) manager_ab = manager_ab"
  by (simp add: ensure_relays_def addRelay_known manager_ab_relays)

lemma manager_ab_targets_b: "targets (Some [relay_b]) manager_ab = [1]"
  by (simp add: targets_def manager_ab_relays)

lemma subscribe_urls:
  assumes "subscribe verifyEvent now filters ps relayUrls m = (Inr (h, ps'), m')"
  shows "map url (relays m') = map url (relays (ensure_relays now relayUrls m))"
proof -
  have "\<not> falsy (readable (params m))"
    using assms by (rule subscribe_readable_only)
  from subscribe_result [OF this, of verifyEvent now filters ps relayUrls] assms
  have "m' = keepAlive now (targets relayUrls (ensure_relays now relayUrls m))
        (push_loop (nextSub m) (targets relayUrls (ensure_relays now relayUrls m))
           (emit [SubscribeMany
                    (map (\<lambda>i. url (relays (ensure_relays now relayUrls m) ! i))
                       (targets relayUrls (ensure_relays now relayUrls m)))
                    filters (nextSub m)]
              ((ensure_relays now relayUrls m)\<lparr>nextSub := Suc (nextSub m)\<rparr>)))"
    by simp
  then show ?thesis
    by (simp only: subscribed_urls)
qed

text \<open>
  Closing in any state. \<^verbatim>\<open>indexOf\<close> and \<^verbatim>\<open>splice\<close> take out the first occurrence of
  the handle; where the handle occurs at most once this removes it, and doing it again
  changes nothing, also when a position occurs twice in the array of the handle.
\<close>

lemma remove1_twice: "distinct xs \<Longrightarrow> remove1 s (remove1 s xs) = remove1 s xs"
  by (simp add: remove1_idem)

lemma close_loop_nth:
  "distinct (activeSubs (relays m ! j)) \<Longrightarrow> j < length (relays m) \<Longrightarrow>
   relays (close_loop s is m) ! j =
     (if j \<in> set is
      then (relays m ! j)\<lparr>activeSubs := remove1 s (activeSubs (relays m ! j))\<rparr>
      else relays m ! j)"
proof (induction "is" arbitrary: m)
  case Nil
  then show ?case by (simp add: close_loop_def)
next
  case (Cons i "is")
  let ?f = "\<lambda>r. r\<lparr>activeSubs := remove1 s (activeSubs r)\<rparr>"
  let ?m = "modify_relay i ?f m"
  have step: "relays ?m ! j = (if i = j then ?f (relays m ! j) else relays m ! j)"
    using Cons.prems(2) by (cases "i = j") simp_all
  have d: "distinct (activeSubs (relays ?m ! j))"
    using Cons.prems(1) unfolding step by simp
  have "relays (close_loop s (i # is) m) ! j = relays (close_loop s is ?m) ! j"
    by (simp add: close_loop_def)
  also have "\<dots> = (if j \<in> set is then ?f (relays ?m ! j) else relays ?m ! j)"
    using Cons.IH [OF d] Cons.prems(2) by simp
  also have "\<dots> = (if j \<in> set (i # is) then ?f (relays m ! j) else relays m ! j)"
    using Cons.prems(1) unfolding step by (simp add: remove1_twice)
  finally show ?case .
qed

lemma NostrSub_close_nth:
  assumes "distinct (activeSubs (relays m ! j))" "j < length (relays m)"
  shows "relays (NostrSub_close h m) ! j =
           (if j \<in> set (sub_positions h m)
            then (relays m ! j)\<lparr>activeSubs := remove1 (sub_id h) (activeSubs (relays m ! j))\<rparr>
            else relays m ! j)"
  using assms by (simp add: NostrSub_close_def close_loop_nth)

lemma sub_positions_close [simp]: "sub_positions h (NostrSub_close h' m) = sub_positions h m"
  by (cases "sub_relays h") (simp_all add: sub_positions_def)






subsection \<open>Authentication\<close>

lemma update_found_length [simp]: "length (update_found u f rs) = length rs"
  by (induction rs) simp_all

lemma update_found_urls:
  "(\<And>r. url (f r) = url r) \<Longrightarrow> map url (update_found u f rs) = map url rs"
  by (induction rs) simp_all

lemma update_found_absent: "u \<notin> url ` set rs \<Longrightarrow> update_found u f rs = rs"
  by (induction rs) auto

lemma update_found_nth:
  "distinct (map url rs) \<Longrightarrow> i < length rs \<Longrightarrow>
   update_found (url (rs ! i)) f rs = rs[i := f (rs ! i)]"
proof (induction rs arbitrary: i)
  case Nil
  then show ?case by simp
next
  case (Cons r rs)
  show ?case
  proof (cases i)
    case 0
    then show ?thesis by simp
  next
    case (Suc k)
    then have "url r \<noteq> url (rs ! k)"
      using Cons.prems by auto
    then show ?thesis
      using Cons Suc by simp
  qed
qed

lemma update_found_find:
  "(\<And>r. url (f r) = url r) \<Longrightarrow>
   find (\<lambda>r. url r = u) (update_found u f rs) = map_option f (find (\<lambda>r. url r = u) rs)"
  by (induction rs) simp_all

text \<open>The registry once \<^verbatim>\<open>authenticateToRelay\<close> has ensured a session for the url.\<close>

lemma ensured_session:
  "(if find (\<lambda>r. url r = u) (relays m) = None then addRelay now u None m else m) =
     addRelay now u None m"
  by (simp add: addRelay_known)

lemma authenticateToRelay_try_eq:
  "authenticateToRelay_try env now signer u m =
     (case env u of
        EnsureRelayRejects \<Rightarrow>
          (Inl (Thrown (EnsureRelay u None)), emit [EnsureRelay u None] (addRelay now u None m))
      | HelperThrows \<Rightarrow>
          (Inl (Thrown (HelperAuthenticate signer u)),
           emit [EnsureRelay u None, HelperAuthenticate signer u] (addRelay now u None m))
      | HelperReturns b \<Rightarrow>
          (Inr b,
           emit [if b then Console LogInfo (AuthSuccessful u) else Console LogWarn (AuthFailed u)]
             ((emit [EnsureRelay u None, HelperAuthenticate signer u] (addRelay now u None m))
                \<lparr>authenticatedRelays := (authenticatedRelays m)(u \<mapsto> b),
                 relays := update_found u (\<lambda>r. r\<lparr>authenticated := b\<rparr>)
                             (relays (addRelay now u None m))\<rparr>)))"
  by (cases "env u") (simp_all add: authenticateToRelay_try_def Let_def ensured_session emit_def)

lemma authenticateToRelay_result:
  "fst (authenticateToRelay env now signer u m) = (env u = HelperReturns True)"
  by (cases "env u") (auto simp: authenticateToRelay_def authenticateToRelay_try_eq)

lemma authenticateToRelay_record:
  "authenticatedRelays (snd (authenticateToRelay env now signer u m)) =
     (case env u of HelperReturns b \<Rightarrow> (authenticatedRelays m)(u \<mapsto> b)
      | _ \<Rightarrow> authenticatedRelays m)"
  by (cases "env u") (simp_all add: authenticateToRelay_def authenticateToRelay_try_eq)

lemma authenticateToRelay_relays:
  "relays (snd (authenticateToRelay env now signer u m)) =
     (case env u of
        HelperReturns b \<Rightarrow>
          update_found u (\<lambda>r. r\<lparr>authenticated := b\<rparr>) (relays (addRelay now u None m))
      | _ \<Rightarrow> relays (addRelay now u None m))"
  by (cases "env u") (simp_all add: authenticateToRelay_def authenticateToRelay_try_eq)

lemma authenticateToRelay_fields [simp]:
  "params (snd (authenticateToRelay env now signer u m)) = params m"
  "nextSub (snd (authenticateToRelay env now signer u m)) = nextSub m"
  "gcTimeout (snd (authenticateToRelay env now signer u m)) = gcTimeout m"
  by (cases "env u"; simp add: authenticateToRelay_def authenticateToRelay_try_eq)+

lemma authenticateToRelay_calls:
  "calls (snd (authenticateToRelay env now signer u m)) =
     calls (addRelay now u None m) @ EnsureRelay u None #
     (case env u of
        EnsureRelayRejects \<Rightarrow> [Console LogError (AuthError u)]
      | HelperThrows \<Rightarrow> [HelperAuthenticate signer u, Console LogError (AuthError u)]
      | HelperReturns b \<Rightarrow>
          [HelperAuthenticate signer u,
           if b then Console LogInfo (AuthSuccessful u) else Console LogWarn (AuthFailed u)])"
  by (cases "env u") (simp_all add: authenticateToRelay_def authenticateToRelay_try_eq)

lemma find_url_Some:
  "u \<in> url ` set rs \<Longrightarrow> \<exists>r. find (\<lambda>r. url r = u) rs = Some r"
  using find_url_None [of u rs] by (cases "find (\<lambda>r. url r = u) rs") simp_all

lemma authenticateToRelay_session:
  assumes "env u = HelperReturns b"
  shows "map_option authenticated
           (find (\<lambda>r. url r = u) (relays (snd (authenticateToRelay env now signer u m)))) = Some b"
proof -
  have "u \<in> url ` set (relays (addRelay now u None m))"
    by (simp add: addRelay_urls)
  then obtain r where "find (\<lambda>r. url r = u) (relays (addRelay now u None m)) = Some r"
    using find_url_Some by blast
  then show ?thesis
    using assms by (simp add: authenticateToRelay_relays update_found_find)
qed

text \<open>
  What a call of \<^verbatim>\<open>authenticateToRelay\<close> leaves behind. It returns a boolean in every
  case, \<^verbatim>\<open>true\<close> exactly when the helper returned \<^verbatim>\<open>true\<close>. When the helper returns
  a boolean, it is stored in the record under the url and in the session found for the
  url. When \<^verbatim>\<open>pool.ensureRelay\<close> or the helper throws, the record is left as it was and
  no session changes (the session for the url is only created if it was missing).
  \<^verbatim>\<open>isRelayAuthenticated\<close> reads the record and is true only for a recorded \<^verbatim>\<open>true\<close>.
\<close>

lemma authenticateToRelay_cases:
  assumes "authenticateToRelay env now signer relayUrl m = (result, m')"
  shows "result = (env relayUrl = HelperReturns True) \<and>
         (case env relayUrl of
            HelperReturns b \<Rightarrow>
              authenticatedRelays m' = (authenticatedRelays m)(relayUrl \<mapsto> b) \<and>
              map_option authenticated (find (\<lambda>r. url r = relayUrl) (relays m')) = Some b
          | _ \<Rightarrow>
              authenticatedRelays m' = authenticatedRelays m \<and>
              relays m' = relays (addRelay now relayUrl None m)) \<and>
         (\<forall>u. isRelayAuthenticated u m' = (authenticatedRelays m' u = Some True))"
proof -
  have r: "result = fst (authenticateToRelay env now signer relayUrl m)"
    and m': "m' = snd (authenticateToRelay env now signer relayUrl m)"
    using assms by simp_all
  have 1: "result = (env relayUrl = HelperReturns True)"
    unfolding r by (rule authenticateToRelay_result)
  have 2: "authenticatedRelays m' = (authenticatedRelays m)(relayUrl \<mapsto> b) \<and>
           map_option authenticated (find (\<lambda>r. url r = relayUrl) (relays m')) = Some b"
    if "env relayUrl = HelperReturns b" for b
    unfolding m'
    using that authenticateToRelay_session [of env relayUrl b now signer m]
    by (simp add: authenticateToRelay_record)
  have 3: "authenticatedRelays m' = authenticatedRelays m \<and>
           relays m' = relays (addRelay now relayUrl None m)"
    if "env relayUrl = EnsureRelayRejects \<or> env relayUrl = HelperThrows"
    unfolding m' using that
    by (auto simp: authenticateToRelay_record authenticateToRelay_relays)
  show ?thesis
    using 1 2 3 by (cases "env relayUrl") (simp_all add: isRelayAuthenticated_def)
qed

lemma manager_authed_record: "authenticatedRelays manager_authed relay_a = Some True"
  by (simp add: manager_authed_def authenticateToRelay_record accepts_def)

lemma manager_authed_relays:
  "relays manager_authed =
     [\<lparr>url = relay_a, activeSubs = [], sleeping = True, lastActive = 0, authenticated = True\<rparr>,
      \<lparr>url = relay_b, activeSubs = [], sleeping = True, lastActive = 0, authenticated = False\<rparr>]"
  by (simp add: manager_authed_def authenticateToRelay_relays accepts_def addRelay_relays
      manager_ab_relays)

lemma authenticateToRelay_cases_example:
  "(case authenticateToRelay refuses 1 signer_alice relay_b manager_authed of
      (result, m') \<Rightarrow>
        \<not> result \<and> authenticatedRelays m' relay_b = Some False \<and>
        map_option authenticated (find (\<lambda>r. url r = relay_b) (relays m')) = Some False \<and>
        isRelayAuthenticated relay_a m' \<and> \<not> isRelayAuthenticated relay_b m')"
proof -
  obtain result m' where eq:
    "authenticateToRelay refuses 1 signer_alice relay_b manager_authed = (result, m')"
    by (cases "authenticateToRelay refuses 1 signer_alice relay_b manager_authed")
  show ?thesis
    using authenticateToRelay_cases [OF eq]
    by (simp add: eq refuses_def manager_authed_record)
qed

text \<open>
  C8. The outcome of a failed attempt is not stored when the failure is a thrown error.
  Relay a is recorded as authenticated after a successful handshake. A second attempt in
  which the relay cannot be reached returns \<^verbatim>\<open>false\<close>, and the record and the session
  still say \<^verbatim>\<open>true\<close>: \<^verbatim>\<open>isRelayAuthenticated\<close> answers \<^verbatim>\<open>true\<close> for a relay whose
  last attempt failed. A second attempt in which the helper returns \<^verbatim>\<open>false\<close> also
  returns \<^verbatim>\<open>false\<close>, and there the record and the session are set to \<^verbatim>\<open>false\<close>.
\<close>

theorem failed_attempt_not_recorded:
  "isRelayAuthenticated relay_a manager_authed \<and>
   \<not> fst (authenticateToRelay unreachable 2 signer_alice relay_a manager_authed) \<and>
   isRelayAuthenticated relay_a
     (snd (authenticateToRelay unreachable 2 signer_alice relay_a manager_authed)) \<and>
   authenticated
     (relays (snd (authenticateToRelay unreachable 2 signer_alice relay_a manager_authed)) ! 0) \<and>
   \<not> fst (authenticateToRelay refuses 2 signer_alice relay_a manager_authed) \<and>
   \<not> isRelayAuthenticated relay_a
       (snd (authenticateToRelay refuses 2 signer_alice relay_a manager_authed)) \<and>
   \<not> authenticated
       (relays (snd (authenticateToRelay refuses 2 signer_alice relay_a manager_authed)) ! 0)"
  by (simp add: authenticateToRelay_result authenticateToRelay_record authenticateToRelay_relays
      isRelayAuthenticated_def unreachable_def refuses_def manager_authed_record
      manager_authed_relays addRelay_relays)

subsection \<open>publish\<close>

lemma keepAlive_step_calls:
  "calls (keepAlive_step now i m) =
     calls m @ (if sleeping (relays m ! i) then [RelayConnect (url (relays m ! i))] else [])"
  by (simp add: keepAlive_step_def Let_def)

lemma keepAlive_calls:
  "distinct is \<Longrightarrow> \<forall>i\<in>set is. i < length (relays m) \<Longrightarrow>
   calls (keepAlive now is m) =
     calls m @ map (\<lambda>i. RelayConnect (url (relays m ! i)))
                 (filter (\<lambda>i. sleeping (relays m ! i)) is)"
proof (induction "is" arbitrary: m)
  case Nil
  then show ?case by simp
next
  case (Cons i "is")
  have same: "relays (keepAlive_step now i m) ! k = relays m ! k" if "k \<in> set is" for k
    using that Cons.prems by (auto simp: keepAlive_step_nth)
  have "calls (keepAlive now (i # is) m) =
        calls (keepAlive_step now i m) @
        map (\<lambda>k. RelayConnect (url (relays (keepAlive_step now i m) ! k)))
          (filter (\<lambda>k. sleeping (relays (keepAlive_step now i m) ! k)) is)"
    using Cons.IH [of "keepAlive_step now i m"] Cons.prems by simp
  also have "filter (\<lambda>k. sleeping (relays (keepAlive_step now i m) ! k)) is =
             filter (\<lambda>k. sleeping (relays m ! k)) is"
    by (rule filter_cong) (simp_all add: same)
  also have "map (\<lambda>k. RelayConnect (url (relays (keepAlive_step now i m) ! k)))
               (filter (\<lambda>k. sleeping (relays m ! k)) is) =
             map (\<lambda>k. RelayConnect (url (relays m ! k))) (filter (\<lambda>k. sleeping (relays m ! k)) is)"
    by (rule map_cong) (simp_all add: same)
  finally show ?case
    by (simp add: keepAlive_step_calls)
qed

lemma known_url: "i < length (relays m) \<Longrightarrow> addRelay now (url (relays m ! i)) ct m = m"
  by (rule addRelay_known) (simp add: find_url_None)

lemma auth_calls_eq:
  "auth_calls env signer u =
     EnsureRelay u None #
     (case env u of
        EnsureRelayRejects \<Rightarrow> [Console LogError (AuthError u)]
      | HelperThrows \<Rightarrow> [HelperAuthenticate signer u, Console LogError (AuthError u)]
      | HelperReturns b \<Rightarrow>
          [HelperAuthenticate signer u,
           if b then Console LogInfo (AuthSuccessful u) else Console LogWarn (AuthFailed u)]) @
     (if fst (authenticateToRelay env now signer u m) then []
      else [Console LogWarn (PublishingWithoutAuth u)])"
  by (simp add: auth_calls_def authenticateToRelay_result)

lemma publish_auth_step_eq:
  "publish_auth_step env now signer i m =
     (if authenticated (relays m ! i) then m
      else (if fst (authenticateToRelay env now signer (url (relays m ! i)) m)
            then snd (authenticateToRelay env now signer (url (relays m ! i)) m)
            else emit [Console LogWarn (PublishingWithoutAuth (url (relays m ! i)))]
                   (snd (authenticateToRelay env now signer (url (relays m ! i)) m))))"
  by (simp add: publish_auth_step_def Let_def split: prod.split)

lemma publish_auth_step_fields [simp]:
  "params (publish_auth_step env now signer i m) = params m"
  "nextSub (publish_auth_step env now signer i m) = nextSub m"
  "gcTimeout (publish_auth_step env now signer i m) = gcTimeout m"
  by (simp_all add: publish_auth_step_eq)

lemma publish_auth_step_calls:
  assumes "i < length (relays m)"
  shows "calls (publish_auth_step env now signer i m) =
           calls m @ (if authenticated (relays m ! i) then []
                      else auth_calls env signer (url (relays m ! i)))"
  using assms
  by (simp add: publish_auth_step_eq authenticateToRelay_calls known_url
      auth_calls_eq [of env signer _ now m])

lemma publish_auth_step_relays:
  assumes "i < length (relays m)" "distinct (map url (relays m))"
  shows "relays (publish_auth_step env now signer i m) =
           (if authenticated (relays m ! i) then relays m
            else case env (url (relays m ! i)) of
                   HelperReturns b \<Rightarrow> (relays m)[i := (relays m ! i)\<lparr>authenticated := b\<rparr>]
                 | _ \<Rightarrow> relays m)"
  using assms
  by (cases "env (url (relays m ! i))")
    (simp_all add: publish_auth_step_eq authenticateToRelay_relays known_url update_found_nth)

lemma publish_auth_step_urls:
  assumes "i < length (relays m)" "distinct (map url (relays m))"
  shows "map url (relays (publish_auth_step env now signer i m)) = map url (relays m)"
  using assms list_update_url [of "\<lambda>r. r\<lparr>authenticated := b\<rparr>" "relays m" i for b]
  by (cases "env (url (relays m ! i))") (simp_all add: publish_auth_step_relays)

lemma publish_auth_step_other:
  assumes "i < length (relays m)" "distinct (map url (relays m))" "k \<noteq> i"
  shows "relays (publish_auth_step env now signer i m) ! k = relays m ! k"
  using assms
  by (cases "env (url (relays m ! i))") (simp_all add: publish_auth_step_relays)

lemma publish_auth_loop_fields [simp]:
  "params (publish_auth_loop env now signer is m) = params m"
  "nextSub (publish_auth_loop env now signer is m) = nextSub m"
  "gcTimeout (publish_auth_loop env now signer is m) = gcTimeout m"
  by (induction "is" arbitrary: m; simp)+

lemma publish_auth_loop_urls:
  "\<forall>i\<in>set is. i < length (relays m) \<Longrightarrow> distinct (map url (relays m)) \<Longrightarrow>
   map url (relays (publish_auth_loop env now signer is m)) = map url (relays m)"
proof (induction "is" arbitrary: m)
  case Nil
  then show ?case by simp
next
  case (Cons i "is")
  have urls: "map url (relays (publish_auth_step env now signer i m)) = map url (relays m)"
    using Cons.prems by (simp add: publish_auth_step_urls)
  then have "length (relays (publish_auth_step env now signer i m)) = length (relays m)"
    by (rule map_eq_imp_length_eq)
  then show ?case
    using Cons.IH [of "publish_auth_step env now signer i m"] Cons.prems urls by simp
qed

lemma publish_auth_loop_calls:
  "distinct is \<Longrightarrow> \<forall>i\<in>set is. i < length (relays m) \<Longrightarrow> distinct (map url (relays m)) \<Longrightarrow>
   calls (publish_auth_loop env now signer is m) =
     calls m @ concat (map (\<lambda>i. if authenticated (relays m ! i) then []
                                 else auth_calls env signer (url (relays m ! i))) is)"
proof (induction "is" arbitrary: m)
  case Nil
  then show ?case by simp
next
  case (Cons i "is")
  let ?m = "publish_auth_step env now signer i m"
  have i: "i < length (relays m)" and d: "distinct (map url (relays m))"
    using Cons.prems by simp_all
  have urls: "map url (relays ?m) = map url (relays m)"
    using i d by (rule publish_auth_step_urls)
  then have len: "length (relays ?m) = length (relays m)"
    by (rule map_eq_imp_length_eq)
  have same: "relays ?m ! k = relays m ! k" if "k \<in> set is" for k
    using that Cons.prems(1) by (intro publish_auth_step_other [OF i d]) auto
  have "calls (publish_auth_loop env now signer (i # is) m) =
        calls ?m @ concat (map (\<lambda>k. if authenticated (relays ?m ! k) then []
                                     else auth_calls env signer (url (relays ?m ! k))) is)"
    using Cons.IH [of ?m] Cons.prems by (simp add: len urls)
  also have "map (\<lambda>k. if authenticated (relays ?m ! k) then []
                       else auth_calls env signer (url (relays ?m ! k))) is =
             map (\<lambda>k. if authenticated (relays m ! k) then []
                       else auth_calls env signer (url (relays m ! k))) is"
    by (rule map_cong) (simp_all add: same)
  finally show ?case
    by (simp add: publish_auth_step_calls [OF i])
qed

lemma addRelays_distinct:
  "distinct (map url (relays m)) \<Longrightarrow> distinct (map url (relays (addRelays now us ct m)))"
  by (induction us arbitrary: m) (simp_all add: addRelay_distinct)

lemma ensure_relays_distinct:
  "distinct (map url (relays m)) \<Longrightarrow> distinct (map url (relays (ensure_relays now relayUrls m)))"
  by (cases relayUrls) (simp_all add: ensure_relays_def addRelays_distinct)

lemma publish_result:
  "\<not> falsy (writable (params m)) \<Longrightarrow> \<not> falsy (autoAuth (params m)) \<Longrightarrow>
   publish env now event relayUrls (Some signer) m =
     (Inr (),
      emit [PoolPublish
              (map (\<lambda>i. url (relays (publish_auth_loop env now signer
                                        (targets relayUrls (ensure_relays now relayUrls m))
                                        (keepAlive now (targets relayUrls (ensure_relays now relayUrls m))
                                           (ensure_relays now relayUrls m))) ! i))
                 (targets relayUrls (ensure_relays now relayUrls m))) event]
        (publish_auth_loop env now signer (targets relayUrls (ensure_relays now relayUrls m))
           (keepAlive now (targets relayUrls (ensure_relays now relayUrls m))
              (ensure_relays now relayUrls m))))"
  by (simp add: publish_def Let_def)

text \<open>
  C9. \<^verbatim>\<open>publish\<close> on a writable manager with \<^verbatim>\<open>autoAuth\<close> and a signer, in a registry
  with one session per url. After the calls of ensuring and waking the targeted sessions,
  the call makes, for each targeted session in order, no call at all when the session is
  already authenticated, and otherwise the calls of one \<^verbatim>\<open>authenticateToRelay\<close> for its
  url, ending with the warning unless the handshake succeeded; whatever these handshakes
  gave, it then hands the event to \<^verbatim>\<open>pool.publish\<close> with the urls of all targeted
  sessions, and returns normally.
\<close>

theorem publish_authenticates_unauthenticated:
  assumes "\<not> falsy (writable (params m))" and "\<not> falsy (autoAuth (params m))"
    and "distinct (map url (relays m))"
  shows "fst (publish env now event relayUrls (Some signer) m) = Inr () \<and>
         calls (snd (publish env now event relayUrls (Some signer) m)) =
           calls (keepAlive now (targets relayUrls (ensure_relays now relayUrls m))
                    (ensure_relays now relayUrls m)) @
           concat (map (\<lambda>r. if authenticated r then [] else auth_calls env signer (url r))
                     (targeted_sessions now relayUrls m)) @
           [PoolPublish (map url (targeted_sessions now relayUrls m)) event]"
proof -
  define m1 where "m1 = ensure_relays now relayUrls m"
  define rs where "rs = targets relayUrls m1"
  define m2 where "m2 = keepAlive now rs m1"
  define m3 where "m3 = publish_auth_loop env now signer rs m2"
  have pub: "publish env now event relayUrls (Some signer) m =
               (Inr (), emit [PoolPublish (map (\<lambda>i. url (relays m3 ! i)) rs) event] m3)"
    unfolding m3_def m2_def rs_def m1_def using assms(1,2) by (rule publish_result)
  have d1: "distinct (map url (relays m1))"
    unfolding m1_def using assms(3) by (rule ensure_relays_distinct)
  have b1: "i < length (relays m1)" if "i \<in> set rs" for i
    using that unfolding rs_def by (rule targets_bound)
  have u2: "map url (relays m2) = map url (relays m1)"
    unfolding m2_def by (rule keepAlive_urls)
  have b2: "\<forall>i\<in>set rs. i < length (relays m2)"
    using b1 by (simp add: m2_def)
  have d2: "distinct (map url (relays m2))"
    using d1 u2 by simp
  have u3: "map url (relays m3) = map url (relays m1)"
    unfolding m3_def using publish_auth_loop_urls [OF b2 d2] u2 by simp
  have url3: "url (relays m3 ! i) = url (relays m1 ! i)" if "i \<in> set rs" for i
  proof -
    have "length (relays m3) = length (relays m1)"
      using u3 by (rule map_eq_imp_length_eq)
    then show ?thesis
      using b1 [OF that] nth_map [of i "relays m3" url] nth_map [of i "relays m1" url] u3
      by simp
  qed
  have auth2: "authenticated (relays m2 ! i) = authenticated (relays m1 ! i)"
    and url2: "url (relays m2 ! i) = url (relays m1 ! i)" if "i \<in> set rs" for i
    using b1 [OF that] by (simp_all add: m2_def keepAlive_nth)
  have "calls m3 =
        calls m2 @ concat (map (\<lambda>i. if authenticated (relays m2 ! i) then []
                                     else auth_calls env signer (url (relays m2 ! i))) rs)"
    unfolding m3_def by (rule publish_auth_loop_calls [OF _ b2 d2]) (simp add: rs_def)
  also have "map (\<lambda>i. if authenticated (relays m2 ! i) then []
                       else auth_calls env signer (url (relays m2 ! i))) rs =
             map (\<lambda>i. if authenticated (relays m1 ! i) then []
                       else auth_calls env signer (url (relays m1 ! i))) rs"
    by (rule map_cong) (simp_all add: auth2 url2)
  finally have c3: "calls m3 =
        calls m2 @ concat (map (\<lambda>r. if authenticated r then [] else auth_calls env signer (url r))
                             (targeted_sessions now relayUrls m))"
    unfolding targeted_sessions_def m1_def rs_def by (simp add: comp_def)
  have "map (\<lambda>i. url (relays m3 ! i)) rs = map (\<lambda>i. url (relays m1 ! i)) rs"
    by (rule map_cong) (simp_all add: url3)
  then have p: "map (\<lambda>i. url (relays m3 ! i)) rs = map url (targeted_sessions now relayUrls m)"
    unfolding targeted_sessions_def m1_def rs_def by (simp add: comp_def)
  show ?thesis
    unfolding pub p by (simp add: c3 m2_def rs_def m1_def)
qed

lemma manager_auto_relays:
  "relays manager_auto =
     [\<lparr>url = relay_a, activeSubs = [], sleeping = True, lastActive = 0, authenticated = False\<rparr>,
      \<lparr>url = relay_b, activeSubs = [], sleeping = True, lastActive = 0, authenticated = False\<rparr>]"
  by (simp add: manager_auto_def NostrManager_new_relays addRelay_relays)

lemma manager_auto_authed_relays:
  "relays manager_auto_authed =
     [\<lparr>url = relay_a, activeSubs = [], sleeping = True, lastActive = 0, authenticated = True\<rparr>,
      \<lparr>url = relay_b, activeSubs = [], sleeping = True, lastActive = 0, authenticated = False\<rparr>]"
  by (simp add: manager_auto_authed_def authenticateToRelay_relays accepts_def addRelay_relays
      manager_auto_relays)

lemma manager_auto_authed_params:
  "\<not> falsy (writable (params manager_auto_authed))"
  "\<not> falsy (autoAuth (params manager_auto_authed))"
  by (simp_all add: manager_auto_authed_def manager_auto_def default_params_flags falsy_def
      params_auto_def)

lemma manager_auto_authed_targets: "targets None manager_auto_authed = [0, 1]"
  by (simp add: targets_def manager_auto_authed_relays)

lemma manager_auto_authed_sessions:
  "targeted_sessions 5 None manager_auto_authed = relays manager_auto_authed"
  by (simp add: targeted_sessions_def ensure_relays_def manager_auto_authed_targets)
    (simp add: manager_auto_authed_relays)

lemma manager_auto_authed_woken:
  "calls (keepAlive 5 [0, 1] manager_auto_authed) =
     calls manager_auto_authed @ [RelayConnect relay_a, RelayConnect relay_b]"
  using keepAlive_calls [of "[0, 1]" manager_auto_authed 5]
  by (simp add: manager_auto_authed_relays)

theorem publish_authenticates_unauthenticated_witness:
  "fst (publish refuses 5 event_good None (Some signer_alice) manager_auto_authed) = Inr () \<and>
   calls (snd (publish refuses 5 event_good None (Some signer_alice) manager_auto_authed)) =
     calls manager_auto_authed @
     [RelayConnect relay_a, RelayConnect relay_b,
      EnsureRelay relay_b None, HelperAuthenticate signer_alice relay_b,
      Console LogWarn (AuthFailed relay_b), Console LogWarn (PublishingWithoutAuth relay_b),
      PoolPublish [relay_a, relay_b] event_good]"
proof -
  have d: "distinct (map url (relays manager_auto_authed))"
    by (simp add: manager_auto_authed_relays)
  have w: "calls (keepAlive 5 (targets None (ensure_relays 5 None manager_auto_authed))
                   (ensure_relays 5 None manager_auto_authed)) =
           calls manager_auto_authed @ [RelayConnect relay_a, RelayConnect relay_b]"
    by (simp only: ensure_relays_def option.case manager_auto_authed_targets
        manager_auto_authed_woken)
  show ?thesis
    using publish_authenticates_unauthenticated [OF manager_auto_authed_params d,
        of refuses 5 event_good None signer_alice]
    unfolding w manager_auto_authed_sessions
    by (simp add: manager_auto_authed_relays auth_calls_def refuses_def)
qed

subsection \<open>fetch\<close>

lemma wrap_params_oneose: "oneose (wrap_params verifyEvent (Some p)) = oneose p"
  by (cases "onevent p") (simp_all add: wrap_params_def)

lemma wrap_params_onevent:
  "onevent (wrap_params verifyEvent (Some p)) = map_option (wrap_onevent verifyEvent) (onevent p)"
  by (cases "onevent p") (simp_all add: wrap_params_def)

lemma settle_fields [simp]:
  "mgr (settle v fs) = mgr fs"
  "sub (settle v fs) = sub fs"
  "fetchedEvents (settle v fs) = fetchedEvents fs"
  "caller (settle v fs) = caller fs"
  "promise (settle v fs) = (case promise fs of None \<Rightarrow> Some v | Some w \<Rightarrow> Some w)"
  by (simp_all add: settle_def split: option.splits)

lemma outcome_pending [simp]: "(outcome fs = None) = (promise fs = None)"
  by (simp add: outcome_def split: option.splits settlement.splits)

lemma fetch_timeout [simp]:
  "mgr (fetch_signal ps TimeoutElapsed fs) = mgr fs"
  "outcome (fetch_signal ps TimeoutElapsed fs) =
     (case outcome fs of None \<Rightarrow> Some (Inl TimeoutError) | Some w \<Rightarrow> Some w)"
  by (simp_all add: fetch_signal_def outcome_def split: option.splits settlement.splits)

lemma fetch_oneose_fields:
  "sub fs = Some h \<Longrightarrow> mgr (fetch_oneose onEose fs) = NostrSub_close h (mgr fs)"
  "sub fs = Some h \<Longrightarrow>
   outcome (fetch_oneose onEose fs) =
     (case outcome fs of None \<Rightarrow> Some (Inr (fetchedEvents fs)) | Some w \<Rightarrow> Some w)"
  by (simp_all add: fetch_oneose_def Let_def outcome_def split: option.splits settlement.splits)

lemma fetch_start_readable:
  assumes "\<not> falsy (readable (params m))"
  shows "fetch_start verifyEvent now filters ps relayUrls c m =
             (\<lparr>mgr = keepAlive now (targets relayUrls (ensure_relays now relayUrls m))
                       (push_loop (nextSub m) (targets relayUrls (ensure_relays now relayUrls m))
                          (emit [SubscribeMany
                                   (map (\<lambda>i. url (relays (ensure_relays now relayUrls m) ! i))
                                      (targets relayUrls (ensure_relays now relayUrls m)))
                                   filters (nextSub m)]
                             ((ensure_relays now relayUrls m)\<lparr>nextSub := Suc (nextSub m)\<rparr>))),
               sub = Some \<lparr>sub_id = nextSub m,
                           sub_relays = (case relayUrls of
                              Some us \<Rightarrow> Some (targets relayUrls (ensure_relays now relayUrls m))
                            | None \<Rightarrow> None)\<rparr>,
               fetchedEvents = [], promise = None, caller = c\<rparr>,
              \<lparr>onevent = Some (wrap_onevent verifyEvent (fetch_onevent (caller_onevent ps))),
               oneose = Some (fetch_oneose (caller_oneose ps))\<rparr>)"
  using assms
  by (simp add: fetch_start_def Let_def subscribe_result wrap_params_def)

lemma NostrSub_close_all_nth:
  assumes "sub_relays h = None" "j < length (relays m)"
  shows "relays (NostrSub_close h m) ! j =
           (relays m ! j)\<lparr>activeSubs := remove1 (sub_id h) (activeSubs (relays m ! j))\<rparr>"
  using assms by (simp add: NostrSub_close_def sub_positions_def closed_nth)

lemma manager_ab_targets: "targets None manager_ab = [0, 1]"
  by (simp add: targets_def manager_ab_relays)

lemma fetch_ab_eq:
  "fetch_ab =
     (\<lparr>mgr = keepAlive 5 [0, 1]
               (push_loop 0 [0, 1]
                  (emit [SubscribeMany [relay_a, relay_b] [] 0] (manager_ab\<lparr>nextSub := Suc 0\<rparr>))),
       sub = Some \<lparr>sub_id = 0, sub_relays = None\<rparr>,
       fetchedEvents = [], promise = None, caller = ()\<rparr>,
      \<lparr>onevent = Some (wrap_onevent sig_by_pubkey (fetch_onevent (caller_onevent None))),
       oneose = Some (fetch_oneose (caller_oneose None))\<rparr>)"
  unfolding fetch_ab_def fetch_start_readable [OF manager_ab_readable]
  by (simp add: ensure_relays_def manager_ab_targets manager_ab_relays del: keepAlive.simps)

lemma fetch_ab_sessions:
  "relays (mgr (fst fetch_ab)) =
     [\<lparr>url = relay_a, activeSubs = [0], sleeping = False, lastActive = 5, authenticated = False\<rparr>,
      \<lparr>url = relay_b, activeSubs = [0], sleeping = False, lastActive = 5, authenticated = False\<rparr>]"
  by (simp add: fetch_ab_eq push_loop_def keepAlive_step_def manager_ab_relays)

text \<open>
  C1. \<^verbatim>\<open>fetch([])\<close> on the manager of relays a and b. When the timeout elapses before
  the end of stored events, the promise is rejected with the timeout error and the
  subscription is still in the active set of both sessions, its \<^verbatim>\<open>close\<close> never called.
  When the end of stored events arrives instead, the promise resolves and both active
  sets are empty.
\<close>

theorem fetch_timeout_leaves_subscription:
  "outcome (fetch_run (snd fetch_ab) [TimeoutElapsed] (fst fetch_ab)) = Some (Inl TimeoutError) \<and>
   map activeSubs (relays (mgr (fetch_run (snd fetch_ab) [TimeoutElapsed] (fst fetch_ab)))) =
     [[0], [0]] \<and>
   SubCloserClose 0 \<notin> set (calls (mgr (fetch_run (snd fetch_ab) [TimeoutElapsed] (fst fetch_ab)))) \<and>
   outcome (fetch_run (snd fetch_ab) [Eose] (fst fetch_ab)) = Some (Inr []) \<and>
   map activeSubs (relays (mgr (fetch_run (snd fetch_ab) [Eose] (fst fetch_ab)))) = [[], []]"
proof -
  have p: "outcome (fst fetch_ab) = None" and f: "fetchedEvents (fst fetch_ab) = []"
    by (simp_all add: fetch_ab_eq)
  have t: "outcome (fetch_run (snd fetch_ab) [TimeoutElapsed] (fst fetch_ab)) =
             Some (Inl TimeoutError)"
    by (simp add: p)
  have m: "mgr (fetch_run (snd fetch_ab) [TimeoutElapsed] (fst fetch_ab)) = mgr (fst fetch_ab)"
    by simp
  have c: "SubCloserClose 0 \<notin> set (calls (mgr (fst fetch_ab)))"
    by (simp add: fetch_ab_eq push_loop_def keepAlive_step_def manager_ab_def
        NostrManager_new_eq gc_calls_of gc_loop_calls gc_calls_def addRelay_calls)
  have e: "fetch_run (snd fetch_ab) [Eose] (fst fetch_ab) =
             fetch_oneose (caller_oneose None) (fst fetch_ab)"
    by (simp add: fetch_signal_def fetch_ab_eq)
  have s: "sub (fst fetch_ab) = Some \<lparr>sub_id = 0, sub_relays = None\<rparr>"
    by (simp add: fetch_ab_eq)
  have o: "outcome (fetch_run (snd fetch_ab) [Eose] (fst fetch_ab)) = Some (Inr [])"
    unfolding e fetch_oneose_fields(2) [OF s] by (simp add: p f)
  have r: "map activeSubs (relays (mgr (fetch_run (snd fetch_ab) [Eose] (fst fetch_ab)))) = [[], []]"
    unfolding e fetch_oneose_fields(1) [OF s]
    by (simp add: NostrSub_close_def sub_positions_def close_loop_def fetch_ab_sessions)
  show ?thesis
    using t c o r unfolding m by (simp add: fetch_ab_sessions)
qed

text \<open>
  The same for every \<^verbatim>\<open>fetch\<close> on a readable manager: a timeout rejects the promise
  and leaves the manager as it is, with the handle of the fetch in the active set of every
  targeted session.
\<close>

lemma fetch_timeout_general:
  assumes "\<not> falsy (readable (params m))"
    and "fetch_start verifyEvent now filters ps relayUrls c m = (fs, ps')"
  shows "outcome (fetch_signal ps' TimeoutElapsed fs) = Some (Inl TimeoutError) \<and>
         mgr (fetch_signal ps' TimeoutElapsed fs) = mgr fs \<and>
         (\<forall>i\<in>set (targets relayUrls (mgr fs)). nextSub m \<in> set (activeSubs (relays (mgr fs) ! i)))"
proof -
  let ?m1 = "ensure_relays now relayUrls m"
  let ?rs = "targets relayUrls ?m1"
  let ?m' = "keepAlive now ?rs
               (push_loop (nextSub m) ?rs
                  (emit [SubscribeMany (map (\<lambda>i. url (relays ?m1 ! i)) ?rs) filters (nextSub m)]
                     (?m1\<lparr>nextSub := Suc (nextSub m)\<rparr>)))"
  have fs: "mgr fs = ?m'" "outcome fs = None"
    using assms(2) unfolding fetch_start_readable [OF assms(1)] by auto
  have tg: "targets relayUrls ?m' = ?rs"
    by (rule targets_urls) (rule subscribed_urls)
  have "nextSub m \<in> set (activeSubs (relays ?m' ! i))" if "i \<in> set ?rs" for i
    using that targets_bound [OF that] by (simp add: subscribed_nth)
  then show ?thesis
    by (simp add: fs tg)
qed

text \<open>
  A check of the model of \<^verbatim>\<open>fetch\<close>: a verified event, a forged one and the end of
  stored events resolve the promise with the verified event alone.
\<close>

lemma fetch_ab_collects:
  "outcome (fetch_run (snd fetch_ab) [Delivered event_good, Delivered event_forged, Eose]
              (fst fetch_ab)) = Some (Inr [event_good])"
proof -
  define fs where
    "fs = fetch_run (snd fetch_ab) [Delivered event_good, Delivered event_forged] (fst fetch_ab)"
  have s: "sub fs = Some \<lparr>sub_id = 0, sub_relays = None\<rparr>"
    and f: "fetchedEvents fs = [event_good]"
    and o: "outcome fs = None"
    unfolding fs_def
    by (simp_all add: fetch_ab_eq fetch_signal_def deliver_def wrap_onevent_def fetch_onevent_def
        sig_by_pubkey_def event_good_def event_forged_def del: keepAlive.simps)
  have "fetch_run (snd fetch_ab) [Delivered event_good, Delivered event_forged, Eose] (fst fetch_ab) =
        fetch_oneose (caller_oneose None) fs"
    unfolding fs_def by (simp add: fetch_signal_def fetch_ab_eq)
  then show ?thesis
    by (simp add: fetch_oneose_fields(2) [OF s] f o)
qed

subsection \<open>The registry invariant\<close>

text \<open>
  The constructor establishes \<open>registry_ok\<close> and every operation keeps it, so what the
  properties above ask of the registry (one session per url, a handle at most once in an
  active set, no handle that is yet to be created) holds whenever the manager is used.
\<close>

lemma registry_ok_nth:
  "registry_ok m =
     (distinct (map url (relays m)) \<and>
      (\<forall>j<length (relays m). session_ok (nextSub m) (relays m ! j)))"
  unfolding registry_ok_def session_ok_def all_set_conv_all_nth by blast

lemma registry_okI:
  assumes "map url (relays m') = map url (relays m)"
    and "\<And>j. j < length (relays m) \<Longrightarrow> session_ok (nextSub m) (relays m ! j) \<Longrightarrow>
           session_ok (nextSub m') (relays m' ! j)"
    and "registry_ok m"
  shows "registry_ok m'"
proof -
  have len: "length (relays m') = length (relays m)"
    using assms(1) by (rule map_eq_imp_length_eq)
  show ?thesis
    using assms unfolding registry_ok_nth len by simp
qed

lemma session_ok_same:
  "activeSubs r' = activeSubs r \<Longrightarrow> session_ok n r \<Longrightarrow> session_ok n r'"
  by (simp add: session_ok_def)

lemma registry_ok_new: "registry_ok (NostrManager_new now d us ps)"
proof -
  let ?m0 = "\<lparr>params = default_params ps, relays = [], gcTimeout = None,
              authenticatedRelays = Map.empty, nextSub = 0, calls = []\<rparr>"
  obtain new where new:
    "relays (addRelays now us (connectionTimeout (default_params ps)) ?m0) = relays ?m0 @ new"
    "\<forall>r\<in>set new. activeSubs r = []"
    using addRelays_appends by blast
  have "distinct (map url (relays (addRelays now us (connectionTimeout (default_params ps)) ?m0)))"
    by (rule addRelays_distinct) simp
  then show ?thesis
    using new by (simp add: registry_ok_def NostrManager_new_relays)
qed

lemma registry_ok_addRelay: "registry_ok m \<Longrightarrow> registry_ok (addRelay now u ct m)"
  using addRelay_appends [of now u ct m]
  by (auto simp: registry_ok_def addRelay_distinct)

lemma registry_ok_ensure_relays: "registry_ok m \<Longrightarrow> registry_ok (ensure_relays now relayUrls m)"
  using ensure_relays_appends [of now relayUrls m]
  by (auto simp: registry_ok_def ensure_relays_distinct)

lemma registry_ok_emit [simp]: "registry_ok (emit es m) = registry_ok m"
  by (simp add: registry_ok_def)

lemma registry_ok_modify_relay:
  assumes "\<And>r. url (f r) = url r" "\<And>r. activeSubs (f r) = activeSubs r" "registry_ok m"
  shows "registry_ok (modify_relay i f m)"
proof (rule registry_okI [OF _ _ assms(3)])
  show "map url (relays (modify_relay i f m)) = map url (relays m)"
    using assms(1) by (simp add: list_update_url)
  show "session_ok (nextSub (modify_relay i f m)) (relays (modify_relay i f m) ! j)"
    if "j < length (relays m)" "session_ok (nextSub m) (relays m ! j)" for j
    using that assms(2) by (cases "i = j") (simp_all add: session_ok_def)
qed

text \<open>
  The sweep keeps the invariant when the calls that run while it is suspended do, as the
  operations of the manager below all do.
\<close>

lemma registry_ok_gc_step:
  assumes "registry_ok m" "\<And>m. registry_ok m \<Longrightarrow> registry_ok (during i m)"
  shows "registry_ok (gc_step now d during i m)"
  using assms by (simp add: gc_step_def Let_def gc_resume_def gc_suspend_def registry_ok_modify_relay)

lemma registry_ok_gc_from:
  assumes "gc_from now d during i m = Some m'"
  shows "(\<forall>i m. registry_ok m \<longrightarrow> registry_ok (during i m)) \<longrightarrow> registry_ok m \<longrightarrow> registry_ok m'"
proof (rule gc_from.raw_induct [OF _ assms])
  fix f now' d' during' i' m y
  assume IH: "\<And>now d during i m y. f now d during i m = Some y \<Longrightarrow>
                (\<forall>i m. registry_ok m \<longrightarrow> registry_ok (during i m)) \<longrightarrow> registry_ok m \<longrightarrow> registry_ok y"
    and eq: "(if i' < length (relays m)
              then f now' d' during' (Suc i') (gc_step now' d' during' i' m) else Some m) = Some y"
  show "(\<forall>i m. registry_ok m \<longrightarrow> registry_ok (during' i m)) \<longrightarrow> registry_ok m \<longrightarrow> registry_ok y"
  proof (intro impI)
    assume k: "\<forall>i m. registry_ok m \<longrightarrow> registry_ok (during' i m)" and ok: "registry_ok m"
    show "registry_ok y"
    proof (cases "i' < length (relays m)")
      case True
      then have "f now' d' during' (Suc i') (gc_step now' d' during' i' m) = Some y"
        using eq by simp
      moreover have "registry_ok (gc_step now' d' during' i' m)"
        using ok k by (intro registry_ok_gc_step) simp_all
      ultimately show ?thesis
        using IH k by blast
    next
      case False
      then show ?thesis using eq ok by simp
    qed
  qed
qed

lemma registry_ok_gc:
  assumes "gc now d during m = Some m'" "registry_ok m"
    and "\<And>i m. registry_ok m \<Longrightarrow> registry_ok (during i m)"
  shows "registry_ok m'"
proof -
  from assms(1) obtain m1 where m1: "gc_from now d during 0 m = Some m1"
    and m': "m' = m1\<lparr>gcTimeout := Some (keepAliveTime (params m1))\<rparr>"
    by (auto simp: gc_def split: option.splits)
  have "registry_ok m1"
    using registry_ok_gc_from [OF m1] assms(2,3) by blast
  then show ?thesis
    by (simp add: m' registry_ok_def)
qed

lemma registry_ok_gc_alone: "registry_ok m \<Longrightarrow> registry_ok (gc_alone now d m)"
  using registry_ok_gc [OF gc_idle, of m now d] by (simp add: idle_def)

lemma registry_ok_close: "registry_ok m \<Longrightarrow> registry_ok (NostrSub_close h m)"
proof (rule registry_okI)
  show "map url (relays (NostrSub_close h m)) = map url (relays m)"
    by (simp add: NostrSub_close_def sub_positions_def close_loop_def for_each_relay_urls)
  show "session_ok (nextSub (NostrSub_close h m)) (relays (NostrSub_close h m) ! j)"
    if "j < length (relays m)" "session_ok (nextSub m) (relays m ! j)" for j
  proof -
    have d: "distinct (activeSubs (relays m ! j))"
      using that(2) by (simp add: session_ok_def)
    have n: "nextSub (NostrSub_close h m) = nextSub m"
      by (simp add: NostrSub_close_def close_loop_def)
    show ?thesis
      using that(2) set_remove1_subset [of "sub_id h" "activeSubs (relays m ! j)"]
      unfolding n NostrSub_close_nth [OF d that(1)]
      by (auto simp: session_ok_def)
  qed
qed

lemma push_loop_fields [simp]:
  "params (push_loop s is m) = params m"
  "nextSub (push_loop s is m) = nextSub m"
  "calls (push_loop s is m) = calls m"
  "length (relays (push_loop s is m)) = length (relays m)"
  by (simp_all add: push_loop_def)

lemma registry_ok_subscribe:
  assumes "registry_ok m"
  shows "registry_ok (snd (subscribe verifyEvent now filters ps relayUrls m))"
proof (cases "falsy (readable (params m))")
  case True
  then show ?thesis
    using assms by (simp add: subscribe_not_readable)
next
  case False
  let ?m1 = "ensure_relays now relayUrls m"
  let ?m' = "snd (subscribe verifyEvent now filters ps relayUrls m)"
  have ok1: "registry_ok ?m1"
    using assms by (rule registry_ok_ensure_relays)
  have m': "?m' = keepAlive now (targets relayUrls ?m1)
                    (push_loop (nextSub m) (targets relayUrls ?m1)
                       (emit [SubscribeMany (map (\<lambda>i. url (relays ?m1 ! i)) (targets relayUrls ?m1))
                                filters (nextSub m)]
                          (?m1\<lparr>nextSub := Suc (nextSub m)\<rparr>)))"
    by (simp add: subscribe_result [OF False])
  show ?thesis
  proof (rule registry_okI [OF _ _ ok1])
    show "map url (relays ?m') = map url (relays ?m1)"
      unfolding m' by (rule subscribed_urls)
    show "session_ok (nextSub ?m') (relays ?m' ! j)"
      if "j < length (relays ?m1)" "session_ok (nextSub ?m1) (relays ?m1 ! j)" for j
      using that unfolding m'
      by (auto simp: subscribed_nth session_ok_def)
  qed
qed

lemma update_found_activeSubs:
  "map activeSubs (update_found u (\<lambda>r. r\<lparr>authenticated := b\<rparr>) rs) = map activeSubs rs"
  by (induction rs) simp_all

lemma registry_ok_authenticateToRelay:
  assumes "registry_ok m"
  shows "registry_ok (snd (authenticateToRelay env now signer u m))"
proof -
  let ?m1 = "addRelay now u None m"
  let ?m' = "snd (authenticateToRelay env now signer u m)"
  have ok1: "registry_ok ?m1"
    using assms by (rule registry_ok_addRelay)
  have urls: "map url (relays ?m') = map url (relays ?m1)"
    by (cases "env u") (simp_all add: authenticateToRelay_relays update_found_urls)
  have subs: "map activeSubs (relays ?m') = map activeSubs (relays ?m1)"
    by (cases "env u") (simp_all add: authenticateToRelay_relays update_found_activeSubs)
  show ?thesis
  proof (rule registry_okI [OF urls _ ok1])
    show "session_ok (nextSub ?m') (relays ?m' ! j)"
      if "j < length (relays ?m1)" "session_ok (nextSub ?m1) (relays ?m1 ! j)" for j
    proof -
      have "length (relays ?m') = length (relays ?m1)"
        using urls by (rule map_eq_imp_length_eq)
      then have "activeSubs (relays ?m' ! j) = activeSubs (relays ?m1 ! j)"
        using that(1) nth_map [of j "relays ?m'" activeSubs] nth_map [of j "relays ?m1" activeSubs]
          subs by simp
      then show ?thesis
        using that(2) by (simp add: session_ok_def)
    qed
  qed
qed

lemma registry_ok_keepAlive: "registry_ok m \<Longrightarrow> registry_ok (keepAlive now is m)"
proof (rule registry_okI)
  show "map url (relays (keepAlive now is m)) = map url (relays m)"
    by (rule keepAlive_urls)
  show "session_ok (nextSub (keepAlive now is m)) (relays (keepAlive now is m) ! j)"
    if "j < length (relays m)" "session_ok (nextSub m) (relays m ! j)" for j
    using that by (simp add: keepAlive_nth session_ok_def)
qed

lemma registry_ok_publish_auth_step:
  "registry_ok m \<Longrightarrow> registry_ok (publish_auth_step env now signer i m)"
  by (simp add: publish_auth_step_eq registry_ok_authenticateToRelay)

lemma registry_ok_publish_auth_loop:
  "registry_ok m \<Longrightarrow> registry_ok (publish_auth_loop env now signer is m)"
  by (induction "is" arbitrary: m) (simp_all add: registry_ok_publish_auth_step)

lemma registry_ok_publish:
  assumes "registry_ok m"
  shows "registry_ok (snd (publish env now event relayUrls signer m))"
proof (cases "falsy (writable (params m))")
  case True
  then show ?thesis
    using assms by (simp add: publish_not_writable)
next
  case False
  have "registry_ok (keepAlive now (targets relayUrls (ensure_relays now relayUrls m))
                       (ensure_relays now relayUrls m))"
    using assms by (intro registry_ok_keepAlive registry_ok_ensure_relays)
  then show ?thesis
    using False
    by (cases signer) (simp_all add: publish_def Let_def registry_ok_publish_auth_loop)
qed

text \<open>
  The state in which the sweep above marks a subscribed session sleeping is one the
  invariant allows: the call that ran during the sweep keeps it.
\<close>

lemma registry_ok_subscribe_meanwhile:
  "registry_ok m \<Longrightarrow> registry_ok (subscribe_meanwhile i m)"
  by (simp add: subscribe_meanwhile_def registry_ok_subscribe)

end
